theory Spec2Isabelle
  imports Complex_Main
begin

section \<open>The audio playback coordinator of ReWord (utils/audio)\<close>

text \<open>
  The module keeps three module-level variables (\<open>cachedVoices\<close>, \<open>isLoaded\<close>,
  \<open>currentAudio\<close>) and talks to three platform objects: the speech synthesiser
  (\<open>window.speechSynthesis\<close>), HTML audio elements created with \<open>new Audio(url)\<close>, and
  the window's event target. The embedding is an explicit state record holding the module
  variables together with the part of the platform the module reads and writes, and one
  total function per source function. Asynchronous code is cut at its suspension points:
  the part of an \<open>async\<close> function after an \<open>await\<close> is a continuation, stored with the
  promise it waits for and run as a microtask once that promise settles. Everything the
  platform does on its own (an element ends or fails, the voice list changes, time
  passes) is an event of the step function \<open>step\<close>.

  Numbers are rationals (rates) and integers (the repeat count); \<open>NaN\<close> and the infinities
  are outside the model. Texts and URLs are byte strings (the UTF-8 bytes of a
  well-formed text); strings with unpaired surrogates, on which \<open>encodeURIComponent\<close>
  raises, are outside the model.
\<close>

subsection \<open>Data\<close>

datatype accent = US | UK

text \<open>A \<open>SpeechSynthesisVoice\<close>: its identifier and its locale tag.\<close>

record voice =
  vname :: string
  vlang :: string

text \<open>A \<open>SpeechSynthesisUtterance\<close> with the attributes the module sets.\<close>

record utterance =
  utext :: string
  urate :: rat
  upitch :: rat
  uvoice :: "voice option"
  ulang :: string

datatype playstate = Playing | Paused | Ended | Errored

datatype pstate = Pending | Resolved | Rejected

text \<open>
  The three places where the module awaits the promise of \<open>playUrl\<close>. Each continuation
  carries the local variables that are live after the \<open>await\<close>; the first component is
  the index of the promise the suspended \<open>async\<close> function has returned.
\<close>

datatype cont =
    WordAwait nat string accent rat
  | ExplicitAwait nat string accent rat
  | GenericAwait nat string accent rat

text \<open>
  An \<open>HTMLAudioElement\<close> created by \<open>playUrl\<close>, with the promise \<open>playUrl\<close> returned for
  it (\<open>promise\<close>), the continuation awaiting that promise, if any (\<open>awaiter\<close>), and
  whether the promise returned by \<open>audio.play()\<close> is still pending (\<open>playPending\<close>).
\<close>

record audio =
  src :: string
  playbackRate :: rat
  currentTime :: rat
  pstatus :: playstate
  playPending :: bool
  promise :: pstate
  awaiter :: "cont option"

text \<open>
  A pending call of \<open>waitForVoices\<close> that found no voice: its promise (\<open>None\<close> while
  pending), whether its \<open>voiceschanged\<close> listener is registered, the deadline of its
  timer (\<open>None\<close> once fired), and the suspended \<open>playTextToSpeech\<close> that awaits it
  (promise index, text, accent, rate, repeat).
\<close>

record waiter =
  wresult :: "voice list option"
  wlistening :: bool
  wtimer :: "nat option"
  wcall :: nat
  wtext :: string
  waccent :: accent
  wrate :: rat
  wrepeat :: int

datatype task =
    AudioSettled cont bool
  | VoicesReady nat string accent rat int "voice list"

datatype logentry = Warn string | Error string

datatype error = PlaybackError | SynthesisError

record state =
  cachedVoices :: "voice list"
  isLoaded :: bool
  currentAudio :: "nat option"
  audios :: "audio list"
  platformVoices :: "voice list"
  hasOnVoicesChanged :: bool
  onvoiceschanged :: bool
  synthQueue :: "utterance list"
  synthPaused :: bool
  synthFails :: bool
  waiters :: "waiter list"
  now :: nat
  microtasks :: "task list"
  calls :: "pstate list"
  stopSignals :: nat
  console :: "logentry list"

text \<open>
  \<open>audios\<close> is the store of audio elements, addressed by index; \<open>currentAudio\<close> holds
  such an index. \<open>platformVoices\<close> is what \<open>synth.getVoices()\<close> returns,
  \<open>hasOnVoicesChanged\<close> whether the platform has the \<open>onvoiceschanged\<close> attribute,
  \<open>onvoiceschanged\<close> whether \<open>updateVoices\<close> is installed there, \<open>synthQueue\<close> the
  utterances queued in the synthesiser, \<open>synthFails\<close> whether \<open>synth.speak\<close> raises.
  \<open>calls\<close> are the promises returned by the \<open>async\<close> functions, \<open>stopSignals\<close> counts
  the dispatched \<open>reword:stop-media\<close> events, \<open>console\<close> is the console output.
\<close>

definition init :: "voice list \<Rightarrow> bool \<Rightarrow> bool \<Rightarrow> state" where
  "init pv hov sf =
     \<lparr>cachedVoices = [], isLoaded = False, currentAudio = None, audios = [],
      platformVoices = pv, hasOnVoicesChanged = hov, onvoiceschanged = False,
      synthQueue = [], synthPaused = False, synthFails = sf, waiters = [], now = 0,
      microtasks = [], calls = [], stopSignals = 0, console = []\<rparr>"

subsection \<open>Voices\<close>

definition updateVoices :: "state \<Rightarrow> state" where
  "updateVoices s =
     (let voices = platformVoices s
      in if length voices > 0 then s\<lparr>cachedVoices := voices, isLoaded := True\<rparr> else s)"

definition preloadVoices :: "state \<Rightarrow> state" where
  "preloadVoices s =
     (let s1 = updateVoices s
      in if hasOnVoicesChanged s1 then s1\<lparr>onvoiceschanged := True\<rparr> else s1)"

subsection \<open>stopAudio\<close>

definition modify :: "nat \<Rightarrow> ('a \<Rightarrow> 'a) \<Rightarrow> 'a list \<Rightarrow> 'a list" where
  "modify i f xs = (if i < length xs then xs[i := f (xs ! i)] else xs)"

text \<open>\<open>pause()\<close> stops a playing element and leaves any other element as it is.\<close>

definition pause :: "audio \<Rightarrow> audio" where
  "pause a = (if pstatus a = Playing then a\<lparr>pstatus := Paused\<rparr> else a)"

definition stopAudio :: "state \<Rightarrow> state" where
  "stopAudio s =
     (let s1 = s\<lparr>synthQueue := []\<rparr>;
          s2 = (case currentAudio s1 of
                  None \<Rightarrow> s1
                | Some a \<Rightarrow>
                    s1\<lparr>audios := modify a (\<lambda>el. (pause el)\<lparr>currentTime := 0\<rparr>) (audios s1),
                       currentAudio := None\<rparr>)
      in s2\<lparr>stopSignals := Suc (stopSignals s2)\<rparr>)"

subsection \<open>playUrl\<close>

definition newAudio :: "string \<Rightarrow> audio" where
  "newAudio url =
     \<lparr>src = url, playbackRate = 1, currentTime = 0, pstatus = Paused, playPending = False,
      promise = Pending, awaiter = None\<rparr>"

text \<open>
  \<open>playUrl url rate k\<close>: \<open>k\<close> is the continuation of the caller that awaits the returned
  promise (\<open>None\<close> for a caller outside the module). The returned promise is the
  \<open>promise\<close> field of the new element, whose index is the length of the store before.
\<close>

definition playUrl :: "string \<Rightarrow> rat \<Rightarrow> cont option \<Rightarrow> state \<Rightarrow> state" where
  "playUrl url playbackRate' k s =
     (let s1 = stopAudio s;
          a = length (audios s1);
          s2 = s1\<lparr>audios := audios s1 @ [(newAudio url)\<lparr>awaiter := k\<rparr>],
                  currentAudio := Some a\<rparr>;
          s3 = s2\<lparr>audios := modify a (\<lambda>el. el\<lparr>playbackRate := playbackRate'\<rparr>) (audios s2)\<rparr>
      in s3\<lparr>audios := modify a (\<lambda>el. el\<lparr>pstatus := Playing, playPending := True\<rparr>) (audios s3)\<rparr>)"

definition clearIfCurrent :: "nat \<Rightarrow> state \<Rightarrow> state" where
  "clearIfCurrent a s = (if currentAudio s = Some a then s\<lparr>currentAudio := None\<rparr> else s)"

text \<open>
  \<open>resolve()\<close> and \<open>reject(e)\<close> of the promise of element \<open>a\<close>: a promise settles once,
  later calls do nothing; settling queues the awaiting continuation as a microtask.
\<close>

definition settle :: "nat \<Rightarrow> bool \<Rightarrow> state \<Rightarrow> state" where
  "settle a ok s =
     (if a < length (audios s) \<and> promise (audios s ! a) = Pending
      then let s1 = s\<lparr>audios := modify a (\<lambda>el. el\<lparr>promise := (if ok then Resolved else Rejected)\<rparr>)
                                    (audios s)\<rparr>
           in (case awaiter (audios s ! a) of
                 None \<Rightarrow> s1
               | Some k \<Rightarrow> s1\<lparr>microtasks := microtasks s1 @ [AudioSettled k ok]\<rparr>)
      else s)"

definition onended :: "nat \<Rightarrow> state \<Rightarrow> state" where
  "onended a s = settle a True (clearIfCurrent a s)"

definition onerror :: "nat \<Rightarrow> state \<Rightarrow> state" where
  "onerror a s = settle a False (clearIfCurrent a s)"

definition playCatch :: "nat \<Rightarrow> state \<Rightarrow> state" where
  "playCatch a s = settle a False (clearIfCurrent a s)"

subsection \<open>waitForVoices and playTextToSpeech\<close>

definition resolveCall :: "nat \<Rightarrow> state \<Rightarrow> state" where
  "resolveCall c s = s\<lparr>calls := modify c (\<lambda>p. if p = Pending then Resolved else p) (calls s)\<rparr>"

definition rejectCall :: "nat \<Rightarrow> state \<Rightarrow> state" where
  "rejectCall c s = s\<lparr>calls := modify c (\<lambda>p. if p = Pending then Rejected else p) (calls s)\<rparr>"

text \<open>
  The end of an \<open>async\<close> function body: a normal return resolves the function's promise,
  an exception that escapes the body rejects it.
\<close>

definition asyncFinish :: "nat \<Rightarrow> (error \<times> state) + state \<Rightarrow> state" where
  "asyncFinish c r = (case r of Inr s \<Rightarrow> resolveCall c s | Inl (e, s) \<Rightarrow> rejectCall c s)"

text \<open>
  \<open>waitForVoices\<close>, called from the suspended \<open>playTextToSpeech\<close> with promise index \<open>c\<close>.
  Where the promise is resolved at once, the awaiting continuation is queued as a
  microtask; otherwise a waiter with its listener and its 2000 ms timer is recorded.
\<close>

definition waitForVoices :: "nat \<Rightarrow> string \<Rightarrow> accent \<Rightarrow> rat \<Rightarrow> int \<Rightarrow> state \<Rightarrow> state" where
  "waitForVoices c text ac rate rep s =
     (if isLoaded s \<and> length (cachedVoices s) > 0
      then s\<lparr>microtasks := microtasks s @ [VoicesReady c text ac rate rep (cachedVoices s)]\<rparr>
      else let v = platformVoices s
           in if length v > 0
              then s\<lparr>cachedVoices := v, isLoaded := True,
                     microtasks := microtasks s @ [VoicesReady c text ac rate rep v]\<rparr>
              else s\<lparr>waiters := waiters s @
                        [\<lparr>wresult = None, wlistening = True, wtimer = Some (now s + 2000),
                          wcall = c, wtext = text, waccent = ac, wrate = rate, wrepeat = rep\<rparr>]\<rparr>)"

text \<open>\<open>resolve(v)\<close> of the promise of waiter \<open>w\<close>.\<close>

definition resolveWaiter :: "nat \<Rightarrow> voice list \<Rightarrow> state \<Rightarrow> state" where
  "resolveWaiter w v s =
     (if w < length (waiters s) \<and> wresult (waiters s ! w) = None
      then let x = waiters s ! w
           in s\<lparr>waiters := modify w (\<lambda>x. x\<lparr>wresult := Some v\<rparr>) (waiters s),
                microtasks := microtasks s @
                  [VoicesReady (wcall x) (wtext x) (waccent x) (wrate x) (wrepeat x) v]\<rparr>
      else s)"

text \<open>The \<open>voiceschanged\<close> listener of waiter \<open>w\<close>.\<close>

definition handler :: "nat \<Rightarrow> state \<Rightarrow> state" where
  "handler w s =
     (let v = platformVoices s
      in if length v > 0
         then resolveWaiter w v
                (s\<lparr>cachedVoices := v, isLoaded := True,
                   waiters := modify w (\<lambda>x. x\<lparr>wlistening := False\<rparr>) (waiters s)\<rparr>)
         else s)"

text \<open>The timer callback of waiter \<open>w\<close>.\<close>

definition timeout :: "nat \<Rightarrow> state \<Rightarrow> state" where
  "timeout w s =
     (let s1 = s\<lparr>waiters := modify w (\<lambda>x. x\<lparr>wlistening := False, wtimer := None\<rparr>) (waiters s)\<rparr>
      in resolveWaiter w (platformVoices s1) s1)"

definition langTag :: "accent \<Rightarrow> string" where
  "langTag ac = (if ac = UK then ''en-GB'' else ''en-US'')"

definition startsWith :: "string \<Rightarrow> string \<Rightarrow> bool" where
  "startsWith s p = (take (length p) s = p)"

definition targetVoice :: "voice list \<Rightarrow> accent \<Rightarrow> voice option" where
  "targetVoice voices ac =
     (case find (\<lambda>v. vlang v = langTag ac) voices of
        Some v \<Rightarrow> Some v
      | None \<Rightarrow> find (\<lambda>v. startsWith (vlang v) ''en'') voices)"

definition safeRate :: "rat \<Rightarrow> rat" where
  "safeRate rate = max (1 / 10) (min 10 rate)"

definition mkUtterance :: "string \<Rightarrow> accent \<Rightarrow> rat \<Rightarrow> voice option \<Rightarrow> utterance" where
  "mkUtterance text ac rate tv =
     (let u = \<lparr>utext = text, urate = safeRate rate, upitch = 1, uvoice = None, ulang = []\<rparr>
      in case tv of
           Some v \<Rightarrow> u\<lparr>uvoice := Some v, ulang := vlang v\<rparr>
         | None \<Rightarrow> u\<lparr>ulang := langTag ac\<rparr>)"

text \<open>\<open>synth.speak(u)\<close>: appends to the synthesiser's queue, or raises.\<close>

definition synthSpeak :: "utterance \<Rightarrow> state \<Rightarrow> (error \<times> state) + state" where
  "synthSpeak u s =
     (if synthFails s then Inl (SynthesisError, s) else Inr (s\<lparr>synthQueue := synthQueue s @ [u]\<rparr>))"

text \<open>The \<open>for\<close> loop of \<open>playTextToSpeech\<close>, with the number of iterations left.\<close>

fun speakLoop :: "nat \<Rightarrow> string \<Rightarrow> accent \<Rightarrow> rat \<Rightarrow> voice option \<Rightarrow> state \<Rightarrow> (error \<times> state) + state" where
  "speakLoop 0 text ac rate tv s = Inr s"
| "speakLoop (Suc n) text ac rate tv s =
     (case synthSpeak (mkUtterance text ac rate tv) s of
        Inl e \<Rightarrow> Inl e
      | Inr s' \<Rightarrow> speakLoop n text ac rate tv s')"

text \<open>
  \<open>playTextToSpeech\<close> after \<open>await waitForVoices()\<close>: the body of the \<open>try\<close>, the \<open>catch\<close>
  that logs, and the end of the function.
\<close>

definition speakResume :: "nat \<Rightarrow> string \<Rightarrow> accent \<Rightarrow> rat \<Rightarrow> int \<Rightarrow> voice list \<Rightarrow> state \<Rightarrow> state" where
  "speakResume c text ac rate rep voices s =
     asyncFinish c
       (case speakLoop (nat rep) text ac rate (targetVoice voices ac) s of
          Inr s' \<Rightarrow> Inr s'
        | Inl (e, s') \<Rightarrow> Inr (s'\<lparr>console := console s' @ [Error ''TTS Error'']\<rparr>))"

text \<open>
  \<open>playTextToSpeech\<close> up to its \<open>await\<close>. The promise it returns is \<open>calls ! length (calls s)\<close>.
\<close>

definition playTextToSpeech :: "string \<Rightarrow> accent \<Rightarrow> rat \<Rightarrow> int \<Rightarrow> state \<Rightarrow> state" where
  "playTextToSpeech text ac rate rep s =
     (let c = length (calls s);
          s0 = s\<lparr>calls := calls s @ [Pending]\<rparr>
      in if text = [] \<or> rep \<le> 0 then asyncFinish c (Inr s0)
         else let s1 = stopAudio s0;
                  s2 = (if synthPaused s1 then s1\<lparr>synthPaused := False\<rparr> else s1)
              in waitForVoices c text ac rate rep s2)"

subsection \<open>playWordAudio and playSentenceAudio\<close>

definition hexDigit :: "nat \<Rightarrow> char" where
  "hexDigit n = ''0123456789ABCDEF'' ! (n mod 16)"

definition unreserved :: "char \<Rightarrow> bool" where
  "unreserved c =
     (let n = (of_char c :: nat)
      in (65 \<le> n \<and> n \<le> 90) \<or> (97 \<le> n \<and> n \<le> 122) \<or> (48 \<le> n \<and> n \<le> 57) \<or>
         n \<in> set [45, 95, 46, 33, 126, 42, 39, 40, 41])"

definition encodeURIComponent :: "string \<Rightarrow> string" where
  "encodeURIComponent t =
     concat (map (\<lambda>c. if unreserved c then [c]
                      else [CHR ''%'', hexDigit (of_char c div 16), hexDigit (of_char c)]) t)"

definition dictUrl :: "string \<Rightarrow> accent \<Rightarrow> string" where
  "dictUrl text ac =
     ''https://dict.youdao.com/dictvoice?audio='' @ encodeURIComponent text @ ''&type='' @
     (if ac = UK then ''1'' else ''2'')"

definition playWordAudio :: "string \<Rightarrow> accent \<Rightarrow> rat \<Rightarrow> state \<Rightarrow> state" where
  "playWordAudio text ac speed s =
     (let c = length (calls s);
          s0 = s\<lparr>calls := calls s @ [Pending]\<rparr>
      in if text = [] then asyncFinish c (Inr s0)
         else playUrl (dictUrl text ac) speed (Some (WordAwait c text ac speed)) s0)"

text \<open>\<open>playSentenceAudio\<close> from line 366 on: the generic lookup URL.\<close>

definition sentenceGeneric :: "nat \<Rightarrow> string \<Rightarrow> accent \<Rightarrow> rat \<Rightarrow> state \<Rightarrow> state" where
  "sentenceGeneric c text ac speed s =
     playUrl (dictUrl text ac) speed (Some (GenericAwait c text ac speed)) s"

definition playSentenceAudio :: "string \<Rightarrow> string option \<Rightarrow> accent \<Rightarrow> rat \<Rightarrow> state \<Rightarrow> state" where
  "playSentenceAudio text explicitUrl ac speed s =
     (let c = length (calls s);
          s0 = s\<lparr>calls := calls s @ [Pending]\<rparr>
      in case explicitUrl of
           Some u \<Rightarrow>
             if u \<noteq> [] then playUrl u speed (Some (ExplicitAwait c text ac speed)) s0
             else sentenceGeneric c text ac speed s0
         | None \<Rightarrow> sentenceGeneric c text ac speed s0)"

text \<open>
  The continuations. An awaited promise that rejects raises at the \<open>await\<close>, inside the
  \<open>try\<close>; the \<open>catch\<close> block runs and the function goes on. The call of
  \<open>playTextToSpeech\<close> in a \<open>catch\<close> block is not awaited: the caller returns while that
  call is suspended.
\<close>

fun runTask :: "task \<Rightarrow> state \<Rightarrow> state" where
  "runTask (AudioSettled (WordAwait c text ac speed) ok) s =
     asyncFinish c
       (case (if ok then Inr s else Inl (PlaybackError, s)) of
          Inr s' \<Rightarrow> Inr s'
        | Inl (e, s') \<Rightarrow>
            Inr (playTextToSpeech text ac speed 1
                   (s'\<lparr>console := console s' @
                         [Warn (''Online audio failed for '' @ text @ '', falling back to TTS'')]\<rparr>)))"
| "runTask (AudioSettled (ExplicitAwait c text ac speed) ok) s =
     (case (if ok then Inr s else Inl (PlaybackError, s)) of
        Inr s' \<Rightarrow> asyncFinish c (Inr s')
      | Inl (e, s') \<Rightarrow>
          sentenceGeneric c text ac speed
            (s'\<lparr>console := console s' @ [Warn ''Explicit URL failed'']\<rparr>))"
| "runTask (AudioSettled (GenericAwait c text ac speed) ok) s =
     asyncFinish c
       (case (if ok then Inr s else Inl (PlaybackError, s)) of
          Inr s' \<Rightarrow> Inr s'
        | Inl (e, s') \<Rightarrow> Inr (playTextToSpeech text ac speed 1 s'))"
| "runTask (VoicesReady c text ac rate rep voices) s = speakResume c text ac rate rep voices s"

subsection \<open>The event loop\<close>

text \<open>
  Calls of the exported functions, and what the platform does. \<open>AudioEnded\<close>,
  \<open>AudioError\<close>: the element fires \<open>ended\<close> (only while playing) or \<open>error\<close> (once).
  \<open>PlayRejected\<close>, \<open>PlayResolved\<close>: the promise of \<open>audio.play()\<close> settles (once); a
  rejected \<open>play()\<close> leaves the element not playing. \<open>TimeUpdate\<close>: the playback position
  of a playing element moves. \<open>VoicesChanged\<close>: the platform's voice list changes and
  \<open>voiceschanged\<close> fires. \<open>Advance d\<close>: \<open>d\<close> milliseconds pass and the timers that are due
  fire, oldest first. \<open>UtteranceEnd\<close>: the synthesiser finishes the utterance at the head
  of its queue. \<open>Microtask\<close>: the oldest queued continuation runs.
\<close>

datatype event =
    CallPreloadVoices
  | CallStopAudio
  | CallPlayUrl string rat
  | CallPlayTextToSpeech string accent rat int
  | CallPlayWordAudio string accent rat
  | CallPlaySentenceAudio string "string option" accent rat
  | AudioEnded nat
  | AudioError nat
  | PlayRejected nat
  | PlayResolved nat
  | TimeUpdate nat rat
  | VoicesChanged "voice list"
  | Advance nat
  | UtteranceEnd
  | Microtask

definition setStatus :: "nat \<Rightarrow> playstate \<Rightarrow> state \<Rightarrow> state" where
  "setStatus a st s = s\<lparr>audios := modify a (\<lambda>el. el\<lparr>pstatus := st\<rparr>) (audios s)\<rparr>"

definition setPlayPending :: "nat \<Rightarrow> bool \<Rightarrow> state \<Rightarrow> state" where
  "setPlayPending a b s = s\<lparr>audios := modify a (\<lambda>el. el\<lparr>playPending := b\<rparr>) (audios s)\<rparr>"

text \<open>The listeners of \<open>voiceschanged\<close> that are registered, in order of registration.\<close>

definition listeners :: "state \<Rightarrow> nat list" where
  "listeners s = filter (\<lambda>w. wlistening (waiters s ! w)) [0..<length (waiters s)]"

definition dueTimers :: "nat \<Rightarrow> state \<Rightarrow> nat list" where
  "dueTimers t s =
     filter (\<lambda>w. case wtimer (waiters s ! w) of None \<Rightarrow> False | Some d \<Rightarrow> d \<le> t)
       [0..<length (waiters s)]"

definition step :: "event \<Rightarrow> state \<Rightarrow> state" where
  "step e s =
     (case e of
        CallPreloadVoices \<Rightarrow> preloadVoices s
      | CallStopAudio \<Rightarrow> stopAudio s
      | CallPlayUrl url rate \<Rightarrow> playUrl url rate None s
      | CallPlayTextToSpeech text ac rate rep \<Rightarrow> playTextToSpeech text ac rate rep s
      | CallPlayWordAudio text ac speed \<Rightarrow> playWordAudio text ac speed s
      | CallPlaySentenceAudio text u ac speed \<Rightarrow> playSentenceAudio text u ac speed s
      | AudioEnded a \<Rightarrow>
          if a < length (audios s) \<and> pstatus (audios s ! a) = Playing
          then onended a (setPlayPending a False (setStatus a Ended s)) else s
      | AudioError a \<Rightarrow>
          if a < length (audios s) \<and> pstatus (audios s ! a) \<in> {Playing, Paused}
          then onerror a (setStatus a Errored s) else s
      | PlayRejected a \<Rightarrow>
          if a < length (audios s) \<and> playPending (audios s ! a)
          then playCatch a
                 (setPlayPending a False
                    (s\<lparr>audios := modify a pause (audios s)\<rparr>))
          else s
      | PlayResolved a \<Rightarrow>
          if a < length (audios s) \<and> playPending (audios s ! a) \<and> pstatus (audios s ! a) = Playing
          then setPlayPending a False s else s
      | TimeUpdate a t \<Rightarrow>
          if a < length (audios s) \<and> pstatus (audios s ! a) = Playing
          then s\<lparr>audios := modify a (\<lambda>el. el\<lparr>currentTime := t\<rparr>) (audios s)\<rparr> else s
      | VoicesChanged v \<Rightarrow>
          (let s1 = s\<lparr>platformVoices := v\<rparr>;
               s2 = (if onvoiceschanged s1 then updateVoices s1 else s1)
           in fold handler (listeners s2) s2)
      | Advance d \<Rightarrow>
          (let t = now s + d
           in (fold timeout (dueTimers t s) s)\<lparr>now := t\<rparr>)
      | UtteranceEnd \<Rightarrow> s\<lparr>synthQueue := tl (synthQueue s)\<rparr>
      | Microtask \<Rightarrow>
          (case microtasks s of
             [] \<Rightarrow> s
           | t # ts \<Rightarrow> runTask t (s\<lparr>microtasks := ts\<rparr>)))"

definition run :: "event list \<Rightarrow> state \<Rightarrow> state" where
  "run es s = fold step es s"

subsection \<open>Predicates on states\<close>

definition playing :: "state \<Rightarrow> nat \<Rightarrow> bool" where
  "playing s a = (a < length (audios s) \<and> pstatus (audios s ! a) = Playing)"

text \<open>Every element that plays is the tracked one.\<close>

definition tracked :: "state \<Rightarrow> bool" where
  "tracked s = (\<forall>a<length (audios s). pstatus (audios s ! a) = Playing \<longrightarrow> currentAudio s = Some a)"

text \<open>The handle, when set, is the index of an element of the store.\<close>

definition handleOk :: "state \<Rightarrow> bool" where
  "handleOk s = (case currentAudio s of None \<Rightarrow> True | Some a \<Rightarrow> a < length (audios s))"

text \<open>The calls that start a playback, and those among them that create an audio element.\<close>

definition startsPlayback :: "event \<Rightarrow> bool" where
  "startsPlayback e =
     (case e of
        CallPlayUrl u r \<Rightarrow> True
      | CallPlayTextToSpeech t a r n \<Rightarrow> t \<noteq> [] \<and> 0 < n
      | CallPlayWordAudio t a r \<Rightarrow> t \<noteq> []
      | CallPlaySentenceAudio t u a r \<Rightarrow> True
      | _ \<Rightarrow> False)"

definition createsAudio :: "event \<Rightarrow> bool" where
  "createsAudio e =
     (case e of
        CallPlayUrl u r \<Rightarrow> True
      | CallPlayWordAudio t a r \<Rightarrow> t \<noteq> []
      | CallPlaySentenceAudio t u a r \<Rightarrow> True
      | _ \<Rightarrow> False)"

text \<open>The state of an \<open>(error \<times> state) + state\<close> result, raised or returned.\<close>

definition stateOf :: "(error \<times> state) + state \<Rightarrow> state" where
  "stateOf r = (case r of Inr s \<Rightarrow> s | Inl (e, s) \<Rightarrow> s)"

text \<open>
  The voice list a call of \<open>waitForVoices\<close> finds at once: the cache when it is loaded,
  otherwise what the platform returns.
\<close>

definition voicesNow :: "state \<Rightarrow> voice list" where
  "voicesNow s = (if isLoaded s \<and> cachedVoices s \<noteq> [] then cachedVoices s else platformVoices s)"

text \<open>
  Waiter \<open>w\<close> is suspended: its promise is pending, its listener registered, its timer
  set to fire at \<open>dl\<close>. \<open>taskOf\<close> is the continuation queued when its promise resolves.
\<close>

definition pendingAt :: "state \<Rightarrow> nat \<Rightarrow> nat \<Rightarrow> bool" where
  "pendingAt s w dl =
     (w < length (waiters s) \<and> wresult (waiters s ! w) = None \<and>
      wlistening (waiters s ! w) \<and> wtimer (waiters s ! w) = Some dl)"

definition taskOf :: "waiter \<Rightarrow> voice list \<Rightarrow> task" where
  "taskOf x v = VoicesReady (wcall x) (wtext x) (waccent x) (wrate x) (wrepeat x) v"

text \<open>Waiter \<open>w\<close> is suspended at time \<open>t\<close> on a platform without voices.\<close>

definition waitingAt :: "state \<Rightarrow> nat \<Rightarrow> nat \<Rightarrow> nat \<Rightarrow> bool" where
  "waitingAt s w dl t = (pendingAt s w dl \<and> platformVoices s = [] \<and> now s = t)"

text \<open>
  The time that passes in a list of events, and whether the platform stays silent in
  it: no \<open>voiceschanged\<close> with a non-empty list.
\<close>

fun elapsed :: "event list \<Rightarrow> nat" where
  "elapsed [] = 0"
| "elapsed (Advance d # es) = d + elapsed es"
| "elapsed (e # es) = elapsed es"

fun silent :: "event list \<Rightarrow> bool" where
  "silent [] = True"
| "silent (VoicesChanged v # es) = (v = [] \<and> silent es)"
| "silent (e # es) = silent es"

text \<open>
  Event \<open>e\<close> is one of the three that settle the promise of element \<open>x\<close>, and the
  platform can deliver it in state \<open>s\<close>.
\<close>

definition fires :: "event \<Rightarrow> state \<Rightarrow> nat \<Rightarrow> bool" where
  "fires e s x =
     (x < length (audios s) \<and>
      ((e = AudioEnded x \<and> pstatus (audios s ! x) = Playing) \<or>
       (e = AudioError x \<and> (pstatus (audios s ! x) = Playing \<or> pstatus (audios s ! x) = Paused)) \<or>
       (e = PlayRejected x \<and> playPending (audios s ! x))))"

text \<open>Element \<open>x\<close> exists and its promise is in state \<open>p\<close>.\<close>

definition promiseIs :: "nat \<Rightarrow> pstate \<Rightarrow> state \<Rightarrow> bool" where
  "promiseIs x p s = (x < length (audios s) \<and> promise (audios s ! x) = p)"

text \<open>The state after event \<open>e\<close> and the microtask that follows it.\<close>

definition after :: "event \<Rightarrow> state \<Rightarrow> state" where
  "after e s = step Microtask (step e s)"

text \<open>The audio element that \<open>playUrl\<close> has just started.\<close>

definition started :: "string \<Rightarrow> rat \<Rightarrow> cont option \<Rightarrow> audio" where
  "started url rate k =
     \<lparr>src = url, playbackRate = rate, currentTime = 0, pstatus = Playing, playPending = True,
      promise = Pending, awaiter = k\<rparr>"

text \<open>
  What a fallback chain leaves to observe: the sources of the elements created so far, in
  order (the remote attempts), the promises of the \<open>async\<close> calls, the number of stop
  signals (one per \<open>stopAudio\<close>), and the console.
\<close>

definition obs :: "state \<Rightarrow> string list \<times> pstate list \<times> nat \<times> logentry list" where
  "obs s = (map src (audios s), calls s, stopSignals s, console s)"

text \<open>
  Compared with \<open>s\<close>, state \<open>s'\<close> holds no trace of a call of \<open>playTextToSpeech\<close>: no
  continuation queued, no waiter added, no utterance queued.
\<close>

definition noTts :: "state \<Rightarrow> state \<Rightarrow> bool" where
  "noTts s s' = (microtasks s' = microtasks s \<and> waiters s' = waiters s \<and> synthQueue s' = [])"

text \<open>
  Compared with \<open>s\<close>, state \<open>s'\<close> holds exactly one more suspended call
  \<open>playTextToSpeech(t, ac, r, n)\<close> with promise \<open>c\<close>: its continuation is queued with the
  voices found at once, or it is the one new waiter.
\<close>

definition ttsScheduled :: "nat \<Rightarrow> string \<Rightarrow> accent \<Rightarrow> rat \<Rightarrow> int \<Rightarrow> state \<Rightarrow> state \<Rightarrow> bool" where
  "ttsScheduled c t ac r n s s' =
     (if voicesNow s \<noteq> []
      then microtasks s' = microtasks s @ [VoicesReady c t ac r n (voicesNow s)] \<and>
           waiters s' = waiters s
      else microtasks s' = microtasks s \<and>
           waiters s' = waiters s @
             [\<lparr>wresult = None, wlistening = True, wtimer = Some (now s + 2000),
               wcall = c, wtext = t, waccent = ac, wrate = r, wrepeat = n\<rparr>])"

text \<open>
  State \<open>s1\<close> is suspended at an \<open>await\<close> of \<open>playUrl\<close>: the last element of the store,
  \<open>a\<close>, plays, is the handle, and its pending promise is awaited by \<open>k\<close>; apart from that
  \<open>s1\<close> agrees with \<open>s\<close> on the synthesiser's side and holds no queued work.
\<close>

definition awaitingAt :: "state \<Rightarrow> state \<Rightarrow> nat \<Rightarrow> cont \<Rightarrow> bool" where
  "awaitingAt s s1 a k =
     (length (audios s1) = Suc a \<and> pstatus (audios s1 ! a) = Playing \<and>
      playPending (audios s1 ! a) \<and> promise (audios s1 ! a) = Pending \<and>
      awaiter (audios s1 ! a) = Some k \<and> currentAudio s1 = Some a \<and>
      microtasks s = [] \<and> microtasks s1 = [] \<and> waiters s1 = waiters s \<and> synthQueue s1 = [] \<and>
      voicesNow s1 = voicesNow s \<and> now s1 = now s \<and> synthFails s1 = synthFails s)"

text \<open>No promise returned by an \<open>async\<close> function of the module is rejected.\<close>

definition noReject :: "state \<Rightarrow> bool" where
  "noReject s = (Rejected \<notin> set (calls s))"

text \<open>The statuses of the elements of the store.\<close>

definition statuses :: "state \<Rightarrow> playstate list" where
  "statuses s = map pstatus (audios s)"

text \<open>What a state transformer leaves alone: the element statuses and the handle.\<close>

definition keeps :: "(state \<Rightarrow> state) \<Rightarrow> bool" where
  "keeps f = (\<forall>s. statuses (f s) = statuses s \<and> currentAudio (f s) = currentAudio s)"

text \<open>A transformer that preserves both invariants.\<close>

definition safe :: "(state \<Rightarrow> state) \<Rightarrow> bool" where
  "safe f = (\<forall>s. tracked s \<and> handleOk s \<longrightarrow> tracked (f s) \<and> handleOk (f s))"

text \<open>Predicates that every step of the event loop preserves.\<close>

definition preserves :: "(state \<Rightarrow> bool) \<Rightarrow> (state \<Rightarrow> state) \<Rightarrow> bool" where
  "preserves P f = (\<forall>s. P s \<longrightarrow> P (f s))"

definition stableCore :: "(state \<Rightarrow> bool) \<Rightarrow> bool" where
  "stableCore P =
     (preserves P updateVoices \<and>
      preserves P (\<lambda>s. s\<lparr>onvoiceschanged := True\<rparr>) \<and>
      preserves P stopAudio \<and>
      (\<forall>u r k. preserves P (playUrl u r k)) \<and>
      preserves P (\<lambda>s. s\<lparr>calls := calls s @ [Pending]\<rparr>) \<and>
      (\<forall>c. preserves P (resolveCall c)) \<and>
      preserves P (\<lambda>s. s\<lparr>synthPaused := False\<rparr>) \<and>
      (\<forall>c t a r n. preserves P (waitForVoices c t a r n)) \<and>
      (\<forall>l. preserves P (\<lambda>s. s\<lparr>console := console s @ l\<rparr>)) \<and>
      (\<forall>c t a r n vs. preserves P (speakResume c t a r n vs)) \<and>
      preserves P (\<lambda>s. s\<lparr>synthQueue := tl (synthQueue s)\<rparr>) \<and>
      (\<forall>ts. preserves P (\<lambda>s. s\<lparr>microtasks := ts\<rparr>)))"

definition stableEnv :: "(state \<Rightarrow> bool) \<Rightarrow> bool" where
  "stableEnv P =
     (preserves P updateVoices \<and>
      (\<forall>v. preserves P (\<lambda>s. s\<lparr>platformVoices := v\<rparr>)) \<and>
      (\<forall>w. preserves P (handler w)) \<and>
      (\<forall>w. preserves P (timeout w)) \<and>
      (\<forall>t. preserves P (\<lambda>s. s\<lparr>now := t\<rparr>)))"

definition envEvent :: "event \<Rightarrow> bool" where
  "envEvent e = (case e of VoicesChanged v \<Rightarrow> True | Advance d \<Rightarrow> True | _ \<Rightarrow> False)"

definition stableAt :: "(state \<Rightarrow> bool) \<Rightarrow> nat \<Rightarrow> bool" where
  "stableAt P a =
     (preserves P (clearIfCurrent a) \<and>
      (\<forall>ok. preserves P (settle a ok)) \<and>
      (\<forall>st. preserves P (setStatus a st)) \<and>
      (\<forall>b. preserves P (setPlayPending a b)) \<and>
      preserves P (\<lambda>s. s\<lparr>audios := modify a pause (audios s)\<rparr>) \<and>
      (\<forall>t. preserves P (\<lambda>s. s\<lparr>audios := modify a (\<lambda>el. el\<lparr>currentTime := t\<rparr>) (audios s)\<rparr>)))"

text \<open>The element an event is about, if any.\<close>

definition elementOf :: "event \<Rightarrow> nat option" where
  "elementOf e =
     (case e of
        AudioEnded a \<Rightarrow> Some a
      | AudioError a \<Rightarrow> Some a
      | PlayRejected a \<Rightarrow> Some a
      | PlayResolved a \<Rightarrow> Some a
      | TimeUpdate a t \<Rightarrow> Some a
      | _ \<Rightarrow> None)"

section \<open>Lemmas\<close>

subsection \<open>The store and the handle\<close>

lemma length_modify [simp]: "length (modify i f xs) = length xs"
  by (simp add: modify_def)

lemma nth_modify: "j < length xs \<Longrightarrow> modify i f xs ! j = (if i = j then f (xs ! j) else xs ! j)"
  by (simp add: modify_def)

lemma tracked_frame: "audios s' = audios s \<Longrightarrow> currentAudio s' = currentAudio s \<Longrightarrow> tracked s' = tracked s"
  by (simp add: tracked_def)

lemma stopAudio_current [simp]: "currentAudio (stopAudio s) = None"
  by (simp add: stopAudio_def Let_def split: option.splits)

lemma stopAudio_length [simp]: "length (audios (stopAudio s)) = length (audios s)"
  by (simp add: stopAudio_def Let_def split: option.splits)

lemma stopAudio_quiet:
  "tracked s \<Longrightarrow> a < length (audios s) \<Longrightarrow> pstatus (audios (stopAudio s) ! a) \<noteq> Playing"
  apply (cases "currentAudio s")
   apply (simp add: tracked_def stopAudio_def Let_def)
  apply (simp add: tracked_def stopAudio_def Let_def nth_modify pause_def)
  done

lemma tracked_stopAudio:
  assumes "tracked s" shows "tracked (stopAudio s)"
  unfolding tracked_def using stopAudio_quiet[OF assms] by simp

lemma playUrl_current [simp]: "currentAudio (playUrl u r k s) = Some (length (audios s))"
  by (simp add: playUrl_def Let_def)

lemma playUrl_length [simp]: "length (audios (playUrl u r k s)) = Suc (length (audios s))"
  by (simp add: playUrl_def Let_def)

lemma playUrl_old:
  "a < length (audios s) \<Longrightarrow> audios (playUrl u r k s) ! a = audios (stopAudio s) ! a"
  by (simp add: playUrl_def Let_def nth_modify nth_append)

lemma playUrl_new:
  "audios (playUrl u r k s) ! length (audios s) =
     \<lparr>src = u, playbackRate = r, currentTime = 0, pstatus = Playing, playPending = True,
      promise = Pending, awaiter = k\<rparr>"
  by (simp add: playUrl_def Let_def nth_modify nth_append newAudio_def)

lemma tracked_playUrl:
  assumes "tracked s" shows "tracked (playUrl u r k s)"
  unfolding tracked_def using stopAudio_quiet[OF assms]
  by (simp add: less_Suc_eq playUrl_old)

lemma settle_current [simp]: "currentAudio (settle a ok s) = currentAudio s"
  by (cases "awaiter (audios s ! a)") (simp_all add: settle_def Let_def)

lemma settle_length [simp]: "length (audios (settle a ok s)) = length (audios s)"
  by (cases "awaiter (audios s ! a)") (simp_all add: settle_def Let_def)

lemma settle_pstatus [simp]:
  "pstatus (audios (settle a ok s) ! b) = pstatus (audios s ! b)"
  by (cases "awaiter (audios s ! a)"; cases "b < length (audios s)")
     (simp_all add: settle_def Let_def modify_def nth_list_update)

lemma tracked_settle [simp]: "tracked (settle a ok s) = tracked s"
  by (simp add: tracked_def)

lemma tracked_clear:
  assumes "tracked s" and "a < length (audios s) \<Longrightarrow> pstatus (audios s ! a) \<noteq> Playing"
  shows "tracked (clearIfCurrent a s)"
proof (cases "currentAudio s = Some a")
  case False
  then show ?thesis using assms(1) by (simp add: clearIfCurrent_def)
next
  case True
  have "pstatus (audios s ! b) \<noteq> Playing" if b: "b < length (audios s)" for b
  proof
    assume p: "pstatus (audios s ! b) = Playing"
    with assms(1) b have "currentAudio s = Some b" by (simp add: tracked_def)
    with True have "b = a" by simp
    with assms(2) b p show False by simp
  qed
  then show ?thesis by (simp add: tracked_def clearIfCurrent_def True)
qed

lemma map_modify:
  "(\<And>x. g (f x) = g x) \<Longrightarrow> map g (modify i f xs) = map g xs"
  by (simp add: modify_def map_update list_update_same_conv)

lemma tracked_statuses:
  assumes "statuses s' = statuses s" and "currentAudio s' = currentAudio s"
  shows "tracked s' = tracked s"
proof -
  have l: "length (audios s') = length (audios s)"
    using assms(1) by (metis length_map statuses_def)
  have n: "pstatus (audios s' ! a) = pstatus (audios s ! a)" if "a < length (audios s)" for a
    using assms(1) that l by (metis nth_map statuses_def)
  show ?thesis by (simp add: tracked_def l n assms(2))
qed


lemma statuses_simps [simp]:
  "statuses (s\<lparr>cachedVoices := cv\<rparr>) = statuses s"
  "statuses (s\<lparr>isLoaded := il\<rparr>) = statuses s"
  "statuses (s\<lparr>currentAudio := ca\<rparr>) = statuses s"
  "statuses (s\<lparr>platformVoices := pv\<rparr>) = statuses s"
  "statuses (s\<lparr>onvoiceschanged := ov\<rparr>) = statuses s"
  "statuses (s\<lparr>synthQueue := q\<rparr>) = statuses s"
  "statuses (s\<lparr>synthPaused := sp\<rparr>) = statuses s"
  "statuses (s\<lparr>waiters := ws\<rparr>) = statuses s"
  "statuses (s\<lparr>now := n\<rparr>) = statuses s"
  "statuses (s\<lparr>microtasks := ms\<rparr>) = statuses s"
  "statuses (s\<lparr>calls := cs\<rparr>) = statuses s"
  "statuses (s\<lparr>stopSignals := ss\<rparr>) = statuses s"
  "statuses (s\<lparr>console := co\<rparr>) = statuses s"
  by (simp_all add: statuses_def)

lemma keepsI: "(\<And>s. statuses (f s) = statuses s) \<Longrightarrow> (\<And>s. currentAudio (f s) = currentAudio s) \<Longrightarrow> keeps f"
  by (simp add: keeps_def)

lemma keepsD: "keeps f \<Longrightarrow> statuses (f s) = statuses s" "keeps f \<Longrightarrow> currentAudio (f s) = currentAudio s"
  by (simp_all add: keeps_def)

lemma keeps_tracked: "keeps f \<Longrightarrow> tracked (f s) = tracked s"
  by (rule tracked_statuses) (simp_all add: keeps_def)

lemma keeps_fold: "(\<And>x. keeps (f x)) \<Longrightarrow> keeps (fold f xs)"
  by (induction xs) (simp_all add: keeps_def)

lemma keeps_updateVoices: "keeps updateVoices"
  by (rule keepsI) (simp_all add: updateVoices_def Let_def)

lemma keeps_preloadVoices: "keeps preloadVoices"
  using keeps_updateVoices by (simp add: keeps_def preloadVoices_def Let_def)

lemma keeps_resolveCall: "keeps (resolveCall c)"
  by (rule keepsI) (simp_all add: resolveCall_def)

lemma keeps_rejectCall: "keeps (rejectCall c)"
  by (rule keepsI) (simp_all add: rejectCall_def)

lemma keeps_waitForVoices: "keeps (waitForVoices c t a r n)"
  by (rule keepsI) (simp_all add: waitForVoices_def Let_def)

lemma keeps_resolveWaiter: "keeps (resolveWaiter w v)"
  by (rule keepsI) (simp_all add: resolveWaiter_def Let_def)

lemma keeps_handler: "keeps (handler w)"
  using keeps_resolveWaiter[of w] by (simp add: keeps_def handler_def Let_def)

lemma keeps_timeout: "keeps (timeout w)"
  using keeps_resolveWaiter[of w] by (simp add: keeps_def timeout_def Let_def)

lemma statuses_asyncFinish [simp]: "statuses (asyncFinish c r) = statuses (stateOf r)"
  using keeps_resolveCall[of c] keeps_rejectCall[of c]
  by (cases r) (auto simp: asyncFinish_def stateOf_def keeps_def)

lemma current_asyncFinish [simp]: "currentAudio (asyncFinish c r) = currentAudio (stateOf r)"
  using keeps_resolveCall[of c] keeps_rejectCall[of c]
  by (cases r) (auto simp: asyncFinish_def stateOf_def keeps_def)

lemma speakLoop_keeps:
  "statuses (stateOf (speakLoop n t a r v s)) = statuses s \<and>
   currentAudio (stateOf (speakLoop n t a r v s)) = currentAudio s"
  by (induction n arbitrary: s) (simp_all add: stateOf_def synthSpeak_def)

lemma keeps_speakResume: "keeps (speakResume c t a r n vs)"
proof (rule keepsI)
  fix s
  show "statuses (speakResume c t a r n vs s) = statuses s"
    using speakLoop_keeps[of "nat n" t a r "targetVoice vs a" s]
    by (cases "speakLoop (nat n) t a r (targetVoice vs a) s")
       (auto simp: speakResume_def stateOf_def)
  show "currentAudio (speakResume c t a r n vs s) = currentAudio s"
    using speakLoop_keeps[of "nat n" t a r "targetVoice vs a" s]
    by (cases "speakLoop (nat n) t a r (targetVoice vs a) s")
       (auto simp: speakResume_def stateOf_def)
qed


lemma length_statuses [simp]: "length (statuses s) = length (audios s)"
  by (simp add: statuses_def)

lemma handleOk_frame:
  "length (audios s') = length (audios s) \<Longrightarrow> currentAudio s' = currentAudio s \<Longrightarrow> handleOk s' = handleOk s"
  by (cases "currentAudio s") (simp_all add: handleOk_def)

lemma keeps_length: "keeps f \<Longrightarrow> length (audios (f s)) = length (audios s)"
  by (metis keepsD(1) length_statuses)

lemma keeps_handleOk: "keeps f \<Longrightarrow> handleOk (f s) = handleOk s"
  by (rule handleOk_frame) (simp_all add: keeps_length keepsD)

lemma handleOk_stopAudio [simp]: "handleOk (stopAudio s)"
  by (simp add: handleOk_def)

lemma handleOk_playUrl [simp]: "handleOk (playUrl u r k s)"
  by (simp add: handleOk_def)

lemma keeps_calls_update: "keeps (\<lambda>s. s\<lparr>calls := f s\<rparr>)"
  by (rule keepsI) simp_all

lemma keeps_console_update: "keeps (\<lambda>s. s\<lparr>console := f s\<rparr>)"
  by (rule keepsI) simp_all

lemma keeps_synthPaused_update: "keeps (\<lambda>s. if synthPaused s then s\<lparr>synthPaused := False\<rparr> else s)"
  by (rule keepsI) simp_all

lemma keeps_asyncFinish_Inr: "keeps (\<lambda>s. asyncFinish c (Inr s))"
  by (rule keepsI) (simp_all add: stateOf_def)

lemma safeD: "safe f \<Longrightarrow> tracked s \<Longrightarrow> handleOk s \<Longrightarrow> tracked (f s) \<and> handleOk (f s)"
  by (simp add: safe_def)

lemma safe_keeps: "keeps f \<Longrightarrow> safe f"
  by (simp add: safe_def keeps_tracked keeps_handleOk)

lemma safe_comp: "safe f \<Longrightarrow> safe g \<Longrightarrow> safe (\<lambda>s. f (g s))"
  by (simp add: safe_def)

lemma safe_if: "safe f \<Longrightarrow> safe g \<Longrightarrow> safe (\<lambda>s. if b s then f s else g s)"
  by (simp add: safe_def)

lemma safe_stopAudio: "safe stopAudio"
  by (simp add: safe_def tracked_stopAudio)

lemma safe_playUrl: "safe (playUrl u r k)"
  by (simp add: safe_def tracked_playUrl)

lemma safe_playTextToSpeech: "safe (playTextToSpeech t a r n)"
proof -
  let ?c = "\<lambda>s. length (calls s)"
  let ?new = "\<lambda>s. s\<lparr>calls := calls s @ [Pending]\<rparr>"
  have new: "safe ?new" by (rule safe_keeps) (rule keeps_calls_update)
  have fin: "safe (\<lambda>s. asyncFinish c (Inr s))" for c
    by (rule safe_keeps) (rule keeps_asyncFinish_Inr)
  have w: "safe (waitForVoices c t a r n)" for c
    by (rule safe_keeps) (rule keeps_waitForVoices)
  have p: "safe (\<lambda>s. if synthPaused s then s\<lparr>synthPaused := False\<rparr> else s)"
    by (rule safe_keeps) (rule keeps_synthPaused_update)
  show ?thesis
    unfolding safe_def
  proof (intro allI impI)
    fix s assume a: "tracked s \<and> handleOk s"
    then have s0: "tracked (?new s) \<and> handleOk (?new s)" using new by (simp add: safe_def)
    show "tracked (playTextToSpeech t a r n s) \<and> handleOk (playTextToSpeech t a r n s)"
    proof (cases "t = [] \<or> n \<le> 0")
      case True
      then show ?thesis using s0 fin[of "length (calls s)"]
        by (simp add: playTextToSpeech_def Let_def safe_def)
    next
      case False
      from s0 have s1: "tracked (stopAudio (?new s)) \<and> handleOk (stopAudio (?new s))"
        using safe_stopAudio by (simp add: safe_def)
      then have s2: "tracked ((\<lambda>s. if synthPaused s then s\<lparr>synthPaused := False\<rparr> else s) (stopAudio (?new s)))
         \<and> handleOk ((\<lambda>s. if synthPaused s then s\<lparr>synthPaused := False\<rparr> else s) (stopAudio (?new s)))"
        using p unfolding safe_def by blast
      then show ?thesis using False w[of "length (calls s)"] unfolding safe_def
        by (simp add: playTextToSpeech_def Let_def)
    qed
  qed
qed


lemma safe_new_call: "safe (\<lambda>s. s\<lparr>calls := calls s @ [Pending]\<rparr>)"
  by (rule safe_keeps) (rule keeps_calls_update)

lemma safe_finish: "safe (\<lambda>s. asyncFinish c (Inr s))"
  by (rule safe_keeps) (rule keeps_asyncFinish_Inr)

lemma safe_playWordAudio: "safe (playWordAudio t a r)"
  unfolding safe_def
proof (intro allI impI)
  fix s assume a: "tracked s \<and> handleOk s"
  then have s0: "tracked (s\<lparr>calls := calls s @ [Pending]\<rparr>) \<and> handleOk (s\<lparr>calls := calls s @ [Pending]\<rparr>)"
    using safe_new_call by (simp add: safe_def)
  show "tracked (playWordAudio t a r s) \<and> handleOk (playWordAudio t a r s)"
  proof (cases "t = []")
    case True
    then show ?thesis using s0 safe_finish[of "length (calls s)"]
      by (simp add: playWordAudio_def Let_def safe_def)
  next
    case False
    then show ?thesis using s0 safe_playUrl
      by (simp add: playWordAudio_def Let_def safe_def)
  qed
qed

lemma safe_sentenceGeneric: "safe (sentenceGeneric c t a r)"
  using safe_playUrl by (simp add: sentenceGeneric_def safe_def)

lemma safe_playSentenceAudio: "safe (playSentenceAudio t u a r)"
  unfolding safe_def
proof (intro allI impI)
  fix s assume a: "tracked s \<and> handleOk s"
  then have s0: "tracked (s\<lparr>calls := calls s @ [Pending]\<rparr>) \<and> handleOk (s\<lparr>calls := calls s @ [Pending]\<rparr>)"
    using safe_new_call by (simp add: safe_def)
  show "tracked (playSentenceAudio t u a r s) \<and> handleOk (playSentenceAudio t u a r s)"
    using s0 safe_playUrl safe_sentenceGeneric
    by (cases u) (simp_all add: playSentenceAudio_def Let_def safe_def)
qed

lemma safe_console: "safe (\<lambda>s. s\<lparr>console := console s @ l\<rparr>)"
  by (rule safe_keeps) (rule keeps_console_update)

lemma safe_o: "safe f \<Longrightarrow> safe g \<Longrightarrow> safe (f \<circ> g)"
  by (simp add: safe_def)

lemma safe_runTask: "safe (runTask t)"
proof (cases t)
  case (AudioSettled k ok)
  show ?thesis
  proof (cases k)
    case (WordAwait c tx ac speed)
    have "safe ((\<lambda>s. asyncFinish c (Inr s)) \<circ> playTextToSpeech tx ac speed 1 \<circ>
              (\<lambda>s. s\<lparr>console := console s @ [Warn (''Online audio failed for '' @ tx @ '', falling back to TTS'')]\<rparr>))"
      by (intro safe_o safe_finish safe_playTextToSpeech safe_console)
    then have "safe (runTask (AudioSettled (WordAwait c tx ac speed) False))"
      by (simp add: safe_def)
    moreover have "safe (runTask (AudioSettled (WordAwait c tx ac speed) True))"
      using safe_finish[of c] by (simp add: safe_def)
    ultimately show ?thesis
      by (cases ok) (simp_all only: AudioSettled WordAwait)
  next
    case (ExplicitAwait c tx ac speed)
    have "safe (sentenceGeneric c tx ac speed \<circ> (\<lambda>s. s\<lparr>console := console s @ [Warn ''Explicit URL failed'']\<rparr>))"
      by (intro safe_o safe_sentenceGeneric safe_console)
    then have "safe (runTask (AudioSettled (ExplicitAwait c tx ac speed) False))"
      by (simp add: safe_def)
    moreover have "safe (runTask (AudioSettled (ExplicitAwait c tx ac speed) True))"
      using safe_finish[of c] by (simp add: safe_def)
    ultimately show ?thesis
      by (cases ok) (simp_all only: AudioSettled ExplicitAwait)
  next
    case (GenericAwait c tx ac speed)
    have "safe ((\<lambda>s. asyncFinish c (Inr s)) \<circ> playTextToSpeech tx ac speed 1)"
      by (intro safe_o safe_finish safe_playTextToSpeech)
    then have "safe (runTask (AudioSettled (GenericAwait c tx ac speed) False))"
      by (simp add: safe_def)
    moreover have "safe (runTask (AudioSettled (GenericAwait c tx ac speed) True))"
      using safe_finish[of c] by (simp add: safe_def)
    ultimately show ?thesis
      by (cases ok) (simp_all only: AudioSettled GenericAwait)
  qed
next
  case (VoicesReady c tx ac rate rep voices)
  have "safe (speakResume c tx ac rate rep voices)"
    by (rule safe_keeps) (rule keeps_speakResume)
  then show ?thesis by (simp add: safe_def VoicesReady)
qed


lemma keeps_setPlayPending: "keeps (setPlayPending a b)"
  by (rule keepsI) (simp_all add: setPlayPending_def statuses_def map_modify)

lemma keeps_timeUpdate: "keeps (\<lambda>s. s\<lparr>audios := modify a (\<lambda>el. el\<lparr>currentTime := t\<rparr>) (audios s)\<rparr>)"
  by (rule keepsI) (simp_all add: statuses_def map_modify)

lemma keeps_now: "keeps (\<lambda>s. s\<lparr>now := t\<rparr>)"
  by (rule keepsI) simp_all

lemma keeps_platformVoices: "keeps (\<lambda>s. s\<lparr>platformVoices := v\<rparr>)"
  by (rule keepsI) simp_all

lemma keeps_synthQueue_update: "keeps (\<lambda>s. s\<lparr>synthQueue := f s\<rparr>)"
  by (rule keepsI) simp_all

lemma keeps_microtasks_update: "keeps (\<lambda>s. s\<lparr>microtasks := f s\<rparr>)"
  by (rule keepsI) simp_all

text \<open>An element that has stopped playing: the invariants hold, and it does not play.\<close>

lemma stopped_element:
  fixes s :: state and a :: nat and f :: "playstate \<Rightarrow> playstate"
  assumes "tracked s" and "handleOk s" and "f Playing \<noteq> Playing" and "\<And>p. p \<noteq> Playing \<Longrightarrow> f p \<noteq> Playing"
  defines "s' \<equiv> s\<lparr>audios := modify a (\<lambda>el. el\<lparr>pstatus := f (pstatus el)\<rparr>) (audios s)\<rparr>"
  shows "tracked s' \<and> handleOk s' \<and> (a < length (audios s') \<longrightarrow> pstatus (audios s' ! a) \<noteq> Playing)"
proof -
  have len: "length (audios s') = length (audios s)" and cur: "currentAudio s' = currentAudio s"
    by (simp_all add: s'_def)
  have st: "pstatus (audios s' ! b) = (if a = b then f (pstatus (audios s ! b)) else pstatus (audios s ! b))"
    if "b < length (audios s)" for b
    using that by (simp add: s'_def nth_modify)
  have np: "pstatus (audios s' ! a) \<noteq> Playing" if "a < length (audios s)"
    using st[OF that] assms(3,4) by (cases "pstatus (audios s ! a) = Playing") simp_all
  have "tracked s'"
    unfolding tracked_def
  proof (intro allI impI)
    fix b assume b: "b < length (audios s')" and p: "pstatus (audios s' ! b) = Playing"
    from b len have b': "b < length (audios s)" by simp
    from np p b' have "a \<noteq> b" by auto
    with st[OF b'] p have "pstatus (audios s ! b) = Playing" by simp
    with assms(1) b' have "currentAudio s = Some b" by (simp add: tracked_def)
    then show "currentAudio s' = Some b" by (simp add: cur)
  qed
  moreover have "handleOk s'" using assms(2) handleOk_frame[OF len cur] by simp
  ultimately show ?thesis using np len by simp
qed

lemma handleOk_clear: "handleOk s \<Longrightarrow> handleOk (clearIfCurrent a s)"
  by (simp add: handleOk_def clearIfCurrent_def)

lemma handleOk_settle [simp]: "handleOk (settle a ok s) = handleOk s"
  by (rule handleOk_frame) simp_all

lemma clear_length [simp]: "length (audios (clearIfCurrent a s)) = length (audios s)"
  by (simp add: clearIfCurrent_def)

text \<open>The three handlers of an element, run once the element does not play.\<close>

lemma safe_handlers:
  assumes "tracked s" and "handleOk s" and "a < length (audios s) \<longrightarrow> pstatus (audios s ! a) \<noteq> Playing"
  shows "tracked (settle a ok (clearIfCurrent a s)) \<and> handleOk (settle a ok (clearIfCurrent a s))"
  using assms tracked_clear[of s a] handleOk_clear[of s a] by simp


lemma keeps_pstatus:
  assumes "keeps f" and "a < length (audios s)"
  shows "pstatus (audios (f s) ! a) = pstatus (audios s ! a)"
proof -
  have "statuses (f s) ! a = statuses s ! a" using assms(1) by (simp add: keepsD)
  then show ?thesis using assms(2) keeps_length[OF assms(1), of s] by (simp add: statuses_def)
qed

lemma pause_alt: "pause = (\<lambda>el. el\<lparr>pstatus := (\<lambda>p. if p = Playing then Paused else p) (pstatus el)\<rparr>)"
  by (rule ext) (simp add: pause_def)

lemma safe_ended:
  assumes "tracked s" and "handleOk s"
  shows "tracked (onended a (setPlayPending a False (setStatus a Ended s))) \<and>
         handleOk (onended a (setPlayPending a False (setStatus a Ended s)))"
proof -
  let ?s1 = "setStatus a Ended s"
  let ?s2 = "setPlayPending a False ?s1"
  have 1: "tracked ?s1 \<and> handleOk ?s1 \<and> (a < length (audios ?s1) \<longrightarrow> pstatus (audios ?s1 ! a) \<noteq> Playing)"
    using stopped_element[OF assms, of "\<lambda>_. Ended" a] by (simp add: setStatus_def)
  have 2: "tracked ?s2 \<and> handleOk ?s2"
    using 1 by (simp add: keeps_tracked[OF keeps_setPlayPending] keeps_handleOk[OF keeps_setPlayPending])
  have 3: "a < length (audios ?s2) \<longrightarrow> pstatus (audios ?s2 ! a) \<noteq> Playing"
    using 1 keeps_pstatus[OF keeps_setPlayPending, of a ?s1 a False]
      keeps_length[OF keeps_setPlayPending, of a False ?s1] by simp
  show ?thesis unfolding onended_def using safe_handlers[of ?s2 a True] 2 3 by blast
qed

lemma safe_error:
  assumes "tracked s" and "handleOk s"
  shows "tracked (onerror a (setStatus a Errored s)) \<and> handleOk (onerror a (setStatus a Errored s))"
proof -
  let ?s1 = "setStatus a Errored s"
  have 1: "tracked ?s1 \<and> handleOk ?s1 \<and> (a < length (audios ?s1) \<longrightarrow> pstatus (audios ?s1 ! a) \<noteq> Playing)"
    using stopped_element[OF assms, of "\<lambda>_. Errored" a] by (simp add: setStatus_def)
  show ?thesis unfolding onerror_def using safe_handlers[of ?s1 a False] 1 by blast
qed

lemma safe_rejected:
  assumes "tracked s" and "handleOk s"
  shows "tracked (playCatch a (setPlayPending a False (s\<lparr>audios := modify a pause (audios s)\<rparr>))) \<and>
         handleOk (playCatch a (setPlayPending a False (s\<lparr>audios := modify a pause (audios s)\<rparr>)))"
proof -
  let ?s1 = "s\<lparr>audios := modify a pause (audios s)\<rparr>"
  let ?s2 = "setPlayPending a False ?s1"
  have 1: "tracked ?s1 \<and> handleOk ?s1 \<and> (a < length (audios ?s1) \<longrightarrow> pstatus (audios ?s1 ! a) \<noteq> Playing)"
    using stopped_element[OF assms, of "\<lambda>p. if p = Playing then Paused else p" a]
    by (simp add: pause_alt)
  have 2: "tracked ?s2 \<and> handleOk ?s2"
    using 1 by (simp add: keeps_tracked[OF keeps_setPlayPending] keeps_handleOk[OF keeps_setPlayPending])
  have 3: "a < length (audios ?s2) \<longrightarrow> pstatus (audios ?s2 ! a) \<noteq> Playing"
    using 1 keeps_pstatus[OF keeps_setPlayPending, of a ?s1 a False]
      keeps_length[OF keeps_setPlayPending, of a False ?s1] by simp
  show ?thesis unfolding playCatch_def using safe_handlers[of ?s2 a False] 2 3 by blast
qed

lemma keeps_voicesChanged:
  "keeps (\<lambda>s. let s1 = s\<lparr>platformVoices := v\<rparr>;
                    s2 = (if onvoiceschanged s1 then updateVoices s1 else s1)
                in fold handler (listeners s2) s2)"
proof (rule keepsI)
  fix s :: state
  let ?s1 = "s\<lparr>platformVoices := v\<rparr>"
  let ?s2 = "if onvoiceschanged ?s1 then updateVoices ?s1 else ?s1"
  have k: "keeps (fold handler ws)" for ws by (rule keeps_fold) (rule keeps_handler)
  have s2: "statuses ?s2 = statuses s \<and> currentAudio ?s2 = currentAudio s"
    using keepsD[OF keeps_updateVoices, of ?s1] by simp
  show "statuses (let s1 = ?s1; s2 = (if onvoiceschanged s1 then updateVoices s1 else s1)
                in fold handler (listeners s2) s2) = statuses s"
    using s2 keepsD(1)[OF k, of "listeners ?s2" ?s2] by (simp add: Let_def)
  show "currentAudio (let s1 = ?s1; s2 = (if onvoiceschanged s1 then updateVoices s1 else s1)
                in fold handler (listeners s2) s2) = currentAudio s"
    using s2 keepsD(2)[OF k, of "listeners ?s2" ?s2] by (simp add: Let_def)
qed

lemma keeps_advance: "keeps (\<lambda>s. (fold timeout (dueTimers (now s + d) s) s)\<lparr>now := now s + d\<rparr>)"
proof (rule keepsI)
  fix s :: state
  have k: "keeps (fold timeout ws)" for ws by (rule keeps_fold) (rule keeps_timeout)
  show "statuses ((fold timeout (dueTimers (now s + d) s) s)\<lparr>now := now s + d\<rparr>) = statuses s"
    using keepsD(1)[OF k] by simp
  show "currentAudio ((fold timeout (dueTimers (now s + d) s) s)\<lparr>now := now s + d\<rparr>) = currentAudio s"
    using keepsD(2)[OF k] by simp
qed

lemma safe_step:
  assumes "tracked s" and "handleOk s"
  shows "tracked (step e s) \<and> handleOk (step e s)"
proof (cases e)
  case CallPreloadVoices
  then show ?thesis using assms safeD[OF safe_keeps[OF keeps_preloadVoices]] by (simp add: step_def)
next
  case CallStopAudio
  then show ?thesis using assms safeD[OF safe_stopAudio] by (simp add: step_def)
next
  case (CallPlayUrl u r)
  then show ?thesis using assms safeD[OF safe_playUrl] by (simp add: step_def)
next
  case (CallPlayTextToSpeech tx ac r n)
  then show ?thesis using assms safeD[OF safe_playTextToSpeech] by (simp add: step_def)
next
  case (CallPlayWordAudio tx ac r)
  then show ?thesis using assms safeD[OF safe_playWordAudio] by (simp add: step_def)
next
  case (CallPlaySentenceAudio tx u ac r)
  then show ?thesis using assms safeD[OF safe_playSentenceAudio] by (simp add: step_def)
next
  case (AudioEnded a)
  then show ?thesis using assms safe_ended[OF assms, of a] by (simp add: step_def)
next
  case (AudioError a)
  then show ?thesis using assms safe_error[OF assms, of a] by (simp add: step_def)
next
  case (PlayRejected a)
  then show ?thesis using assms safe_rejected[OF assms, of a] by (simp add: step_def)
next
  case (PlayResolved a)
  then show ?thesis using assms safeD[OF safe_keeps[OF keeps_setPlayPending], of s a False]
    by (simp add: step_def)
next
  case (TimeUpdate a t)
  then show ?thesis using assms safeD[OF safe_keeps[OF keeps_timeUpdate], of s a t]
    by (simp add: step_def)
next
  case (VoicesChanged v)
  then show ?thesis using assms safeD[OF safe_keeps[OF keeps_voicesChanged], of s v]
    by (simp add: step_def)
next
  case (Advance d)
  then show ?thesis using assms safeD[OF safe_keeps[OF keeps_advance], of s d]
    by (simp add: step_def Let_def)
next
  case UtteranceEnd
  then show ?thesis using assms safeD[OF safe_keeps[OF keeps_synthQueue_update], of s "\<lambda>s. tl (synthQueue s)"]
    by (simp add: step_def)
next
  case Microtask
  show ?thesis
  proof (cases "microtasks s")
    case Nil
    then show ?thesis using assms Microtask by (simp add: step_def)
  next
    case (Cons t ts)
    have "tracked (s\<lparr>microtasks := ts\<rparr>) \<and> handleOk (s\<lparr>microtasks := ts\<rparr>)"
      using assms safeD[OF safe_keeps[OF keeps_microtasks_update], of s "\<lambda>_. ts"] by simp
    then show ?thesis using Microtask Cons safeD[OF safe_runTask, of "s\<lparr>microtasks := ts\<rparr>" t]
      by (simp add: step_def)
  qed
qed

lemma safe_run: "tracked s \<Longrightarrow> handleOk s \<Longrightarrow> tracked (run es s) \<and> handleOk (run es s)"
  unfolding run_def
proof (induction es arbitrary: s)
  case Nil
  then show ?case by simp
next
  case (Cons e es)
  then show ?case using safe_step[of s e] by simp
qed

lemma safe_init: "tracked (init pv hov sf) \<and> handleOk (init pv hov sf)"
  by (simp add: tracked_def handleOk_def init_def)

subsection \<open>Starting a playback\<close>

lemma stopAudio_calls: "stopAudio (s\<lparr>calls := x\<rparr>) = (stopAudio s)\<lparr>calls := x\<rparr>"
  by (cases "currentAudio s") (simp_all add: stopAudio_def Let_def)

lemma stopAudio_signals [simp]: "stopSignals (stopAudio s) = Suc (stopSignals s)"
  by (cases "currentAudio s") (simp_all add: stopAudio_def Let_def)

lemma stopAudio_queue [simp]: "synthQueue (stopAudio s) = []"
  by (cases "currentAudio s") (simp_all add: stopAudio_def Let_def)

lemma stopAudio_element:
  "currentAudio s = Some c \<Longrightarrow> c < length (audios s) \<Longrightarrow>
   audios (stopAudio s) ! c = (pause (audios s ! c))\<lparr>currentTime := 0\<rparr>"
  by (simp add: stopAudio_def Let_def nth_modify)

lemma playUrl_audios:
  "audios (playUrl u r k s) =
     audios (stopAudio s) @
       [\<lparr>src = u, playbackRate = r, currentTime = 0, pstatus = Playing, playPending = True,
         promise = Pending, awaiter = k\<rparr>]"
  by (simp add: playUrl_def Let_def modify_def newAudio_def)

lemma playUrl_signals [simp]: "stopSignals (playUrl u r k s) = Suc (stopSignals s)"
  by (simp add: playUrl_def Let_def)

lemma waitForVoices_frame [simp]:
  "audios (waitForVoices c t a r n s) = audios s"
  "currentAudio (waitForVoices c t a r n s) = currentAudio s"
  "stopSignals (waitForVoices c t a r n s) = stopSignals s"
  "synthQueue (waitForVoices c t a r n s) = synthQueue s"
  "calls (waitForVoices c t a r n s) = calls s"
  "console (waitForVoices c t a r n s) = console s"
  by (simp_all add: waitForVoices_def Let_def)

lemma start_effect:
  assumes "startsPlayback e"
  shows "take (length (audios s)) (audios (step e s)) = audios (stopAudio s) \<and>
         stopSignals (step e s) = Suc (stopSignals s) \<and>
         currentAudio (step e s) = (if createsAudio e then Some (length (audios s)) else None) \<and>
         (createsAudio e \<longrightarrow> playing (step e s) (length (audios s)))"
proof (cases e)
  case (CallPlayUrl u r)
  then show ?thesis
    by (simp add: step_def createsAudio_def playUrl_audios playing_def nth_append)
next
  case (CallPlayTextToSpeech tx ac r n)
  then show ?thesis using assms
    by (simp add: step_def createsAudio_def startsPlayback_def playTextToSpeech_def Let_def stopAudio_calls)
next
  case (CallPlayWordAudio tx ac r)
  then show ?thesis using assms
    by (simp add: step_def createsAudio_def startsPlayback_def playWordAudio_def Let_def
        playUrl_audios playing_def nth_append stopAudio_calls)
next
  case (CallPlaySentenceAudio tx u ac r)
  then show ?thesis
    by (cases u)
       (simp_all add: step_def createsAudio_def playSentenceAudio_def sentenceGeneric_def Let_def
        playUrl_audios playing_def nth_append stopAudio_calls)
qed (use assms in \<open>simp_all add: startsPlayback_def\<close>)

subsection \<open>Preservation through the event loop\<close>

lemma preservesD: "preserves P f \<Longrightarrow> P s \<Longrightarrow> P (f s)"
  by (simp add: preserves_def)

lemma preservesI: "(\<And>s. P s \<Longrightarrow> P (f s)) \<Longrightarrow> preserves P f"
  by (simp add: preserves_def)

lemma preserves_o: "preserves P f \<Longrightarrow> preserves P g \<Longrightarrow> preserves P (f \<circ> g)"
  by (simp add: preserves_def)

lemma preserves_fold: "(\<And>x. preserves P (f x)) \<Longrightarrow> preserves P (fold f xs)"
  by (induction xs) (simp_all add: preserves_def)

lemma preserves_preloadVoices:
  assumes "stableCore P" shows "preserves P preloadVoices"
proof (rule preservesI)
  fix s assume "P s"
  then have 1: "P (updateVoices s)" using assms by (simp add: stableCore_def preserves_def)
  then have "P ((updateVoices s)\<lparr>onvoiceschanged := True\<rparr>)"
    using assms by (simp add: stableCore_def preserves_def)
  with 1 show "P (preloadVoices s)" by (simp add: preloadVoices_def Let_def)
qed

lemma preserves_playTextToSpeech:
  assumes "stableCore P" shows "preserves P (playTextToSpeech t a r n)"
proof (rule preservesI)
  fix s assume "P s"
  let ?s0 = "s\<lparr>calls := calls s @ [Pending]\<rparr>"
  let ?s1 = "stopAudio ?s0"
  have 0: "P ?s0" using \<open>P s\<close> assms by (simp add: stableCore_def preserves_def)
  then have f: "P (resolveCall (length (calls s)) ?s0)"
    using assms by (simp add: stableCore_def preserves_def)
  from 0 have 1: "P ?s1" using assms by (simp add: stableCore_def preserves_def)
  then have "P (?s1\<lparr>synthPaused := False\<rparr>)"
    using assms by (simp add: stableCore_def preserves_def)
  with 1 have 2: "P (if synthPaused ?s1 then ?s1\<lparr>synthPaused := False\<rparr> else ?s1)" by simp
  have w: "P (waitForVoices c t a r n x)" if "P x" for x c
    using that assms by (simp add: stableCore_def preserves_def)
  show "P (playTextToSpeech t a r n s)"
    using f w[OF 2] by (simp add: playTextToSpeech_def Let_def asyncFinish_def)
qed

lemma preserves_playWordAudio:
  assumes "stableCore P" shows "preserves P (playWordAudio t a r)"
proof (rule preservesI)
  fix s assume "P s"
  let ?s0 = "s\<lparr>calls := calls s @ [Pending]\<rparr>"
  have 0: "P ?s0" using \<open>P s\<close> assms by (simp add: stableCore_def preserves_def)
  then have f: "P (resolveCall (length (calls s)) ?s0)"
    using assms by (simp add: stableCore_def preserves_def)
  have p: "P (playUrl u r k ?s0)" for u k
    using 0 assms by (simp add: stableCore_def preserves_def)
  show "P (playWordAudio t a r s)"
    using f p by (simp add: playWordAudio_def Let_def asyncFinish_def)
qed

lemma preserves_sentenceGeneric:
  assumes "stableCore P" shows "preserves P (sentenceGeneric c t a r)"
  using assms by (simp add: stableCore_def sentenceGeneric_def preserves_def)

lemma preserves_playSentenceAudio:
  assumes "stableCore P" shows "preserves P (playSentenceAudio t u a r)"
proof (rule preservesI)
  fix s assume "P s"
  let ?s0 = "s\<lparr>calls := calls s @ [Pending]\<rparr>"
  have 0: "P ?s0" using \<open>P s\<close> assms by (simp add: stableCore_def preserves_def)
  have p: "P (playUrl v r k ?s0)" for v k
    using 0 assms by (simp add: stableCore_def preserves_def)
  have g: "P (sentenceGeneric c t a r ?s0)" for c
    using 0 preserves_sentenceGeneric[OF assms] by (simp add: preserves_def)
  show "P (playSentenceAudio t u a r s)"
    using p g by (cases u) (simp_all add: playSentenceAudio_def Let_def)
qed

lemma preserves_runTask:
  assumes "stableCore P" shows "preserves P (runTask t)"
proof (rule preservesI)
  fix s assume s: "P s"
  have fin: "P (resolveCall c x)" if "P x" for c x
    using that assms by (simp add: stableCore_def preserves_def)
  have con: "P (x\<lparr>console := console x @ l\<rparr>)" if "P x" for l x
    using that assms by (simp add: stableCore_def preserves_def)
  have tts: "P (playTextToSpeech tx ac r n x)" if "P x" for tx ac r n x
    using that preserves_playTextToSpeech[OF assms] by (simp add: preserves_def)
  have gen: "P (sentenceGeneric c tx ac r x)" if "P x" for c tx ac r x
    using that preserves_sentenceGeneric[OF assms] by (simp add: preserves_def)
  show "P (runTask t s)"
  proof (cases t)
    case (AudioSettled k ok)
    show ?thesis
    proof (cases k)
      case (WordAwait c tx ac speed)
      then show ?thesis using AudioSettled fin[OF s] fin[OF tts[OF con[OF s]]]
        by (cases ok) (simp_all add: asyncFinish_def)
    next
      case (ExplicitAwait c tx ac speed)
      then show ?thesis using AudioSettled fin[OF s] gen[OF con[OF s]]
        by (cases ok) (simp_all add: asyncFinish_def)
    next
      case (GenericAwait c tx ac speed)
      then show ?thesis using AudioSettled fin[OF s] fin[OF tts[OF s]]
        by (cases ok) (simp_all add: asyncFinish_def)
    qed
  next
    case (VoicesReady c tx ac rate rep voices)
    then show ?thesis using s assms by (simp add: stableCore_def preserves_def)
  qed
qed

lemma preserves_step:
  assumes core: "stableCore P" and el: "\<And>a. elementOf e = Some a \<Longrightarrow> stableAt P a"
    and env: "envEvent e \<Longrightarrow> stableEnv P"
  shows "preserves P (step e)"
proof (rule preservesI)
  fix s assume s: "P s"
  have cl: "P (clearIfCurrent a x)" and se: "P (settle a ok x)" and ss: "P (setStatus a st x)"
    and sp: "P (setPlayPending a b x)" and pa: "P (x\<lparr>audios := modify a pause (audios x)\<rparr>)"
    and tu: "P (x\<lparr>audios := modify a (\<lambda>el. el\<lparr>currentTime := t\<rparr>) (audios x)\<rparr>)"
    if "elementOf e = Some a" and "P x" for a x ok st b t
    using el[OF that(1)] that(2) by (simp_all add: stableAt_def preserves_def)
  show "P (step e s)"
  proof (cases e)
    case CallPreloadVoices
    then show ?thesis using s preserves_preloadVoices[OF core] by (simp add: step_def preserves_def)
  next
    case CallStopAudio
    then show ?thesis using s core by (simp add: step_def stableCore_def preserves_def)
  next
    case (CallPlayUrl u r)
    then show ?thesis using s core by (simp add: step_def stableCore_def preserves_def)
  next
    case (CallPlayTextToSpeech tx ac r n)
    then show ?thesis using s preserves_playTextToSpeech[OF core] by (simp add: step_def preserves_def)
  next
    case (CallPlayWordAudio tx ac r)
    then show ?thesis using s preserves_playWordAudio[OF core] by (simp add: step_def preserves_def)
  next
    case (CallPlaySentenceAudio tx u ac r)
    then show ?thesis using s preserves_playSentenceAudio[OF core] by (simp add: step_def preserves_def)
  next
    case (AudioEnded a)
    then have e: "elementOf e = Some a" by (simp add: elementOf_def)
    show ?thesis using AudioEnded s se[OF e cl[OF e sp[OF e ss[OF e s]]]]
      by (simp add: step_def onended_def)
  next
    case (AudioError a)
    then have e: "elementOf e = Some a" by (simp add: elementOf_def)
    show ?thesis using AudioError s se[OF e cl[OF e ss[OF e s]]]
      by (simp add: step_def onerror_def)
  next
    case (PlayRejected a)
    then have e: "elementOf e = Some a" by (simp add: elementOf_def)
    show ?thesis using PlayRejected s se[OF e cl[OF e sp[OF e pa[OF e s]]]]
      by (simp add: step_def playCatch_def)
  next
    case (PlayResolved a)
    then have e: "elementOf e = Some a" by (simp add: elementOf_def)
    show ?thesis using PlayResolved s sp[OF e s] by (simp add: step_def)
  next
    case (TimeUpdate a t)
    then have e: "elementOf e = Some a" by (simp add: elementOf_def)
    show ?thesis using TimeUpdate s tu[OF e s] by (simp add: step_def)
  next
    case (VoicesChanged v)
    then have en: "stableEnv P" using env by (simp add: envEvent_def)
    let ?s1 = "s\<lparr>platformVoices := v\<rparr>"
    let ?s2 = "if onvoiceschanged ?s1 then updateVoices ?s1 else ?s1"
    have 1: "P ?s1" using s en by (simp add: stableEnv_def preserves_def)
    then have "P (updateVoices ?s1)" using en by (simp add: stableEnv_def preserves_def)
    with 1 have 2: "P ?s2" by simp
    have "preserves P (fold handler ws)" for ws
      using en by (intro preserves_fold) (simp add: stableEnv_def)
    then have "P (fold handler (listeners ?s2) ?s2)" using 2 by (simp add: preserves_def)
    then show ?thesis using VoicesChanged by (simp add: step_def Let_def)
  next
    case (Advance d)
    then have en: "stableEnv P" using env by (simp add: envEvent_def)
    have "preserves P (fold timeout ws)" for ws
      using en by (intro preserves_fold) (simp add: stableEnv_def)
    then have "P (fold timeout (dueTimers (now s + d) s) s)" using s by (simp add: preserves_def)
    then have "P ((fold timeout (dueTimers (now s + d) s) s)\<lparr>now := now s + d\<rparr>)"
      using en by (simp add: stableEnv_def preserves_def)
    then show ?thesis using Advance by (simp add: step_def Let_def)
  next
    case UtteranceEnd
    then show ?thesis using s core by (simp add: step_def stableCore_def preserves_def)
  next
    case Microtask
    show ?thesis
    proof (cases "microtasks s")
      case Nil
      then show ?thesis using s Microtask by (simp add: step_def)
    next
      case (Cons t ts)
      have "P (s\<lparr>microtasks := ts\<rparr>)" using s core by (simp add: stableCore_def preserves_def)
      then have "P (runTask t (s\<lparr>microtasks := ts\<rparr>))"
        using preserves_runTask[OF core] by (simp add: preserves_def)
      then show ?thesis using Microtask Cons by (simp add: step_def)
    qed
  qed
qed

lemma preserves_run:
  assumes "stableCore P" and "\<And>a. stableAt P a" and "stableEnv P" and "P s"
  shows "P (run es s)"
  using assms(4) unfolding run_def
proof (induction es arbitrary: s)
  case Nil
  then show ?case by simp
next
  case (Cons e es)
  have "P (step e s)" using preserves_step[OF assms(1), of e] assms(2,3) Cons.prems
    by (simp add: preserves_def)
  then show ?case using Cons.IH by simp
qed

subsection \<open>Frames\<close>

lemma stopAudio_frame [simp]:
  "cachedVoices (stopAudio s) = cachedVoices s"
  "calls (stopAudio s) = calls s"
  "console (stopAudio s) = console s"
  "microtasks (stopAudio s) = microtasks s"
  "waiters (stopAudio s) = waiters s"
  "isLoaded (stopAudio s) = isLoaded s"
  "platformVoices (stopAudio s) = platformVoices s"
  "synthFails (stopAudio s) = synthFails s"
  "now (stopAudio s) = now s"
  by (cases "currentAudio s"; simp add: stopAudio_def Let_def)+

lemma playUrl_frame [simp]:
  "cachedVoices (playUrl u r k s) = cachedVoices s"
  "calls (playUrl u r k s) = calls s"
  "console (playUrl u r k s) = console s"
  "microtasks (playUrl u r k s) = microtasks s"
  "waiters (playUrl u r k s) = waiters s"
  "isLoaded (playUrl u r k s) = isLoaded s"
  "platformVoices (playUrl u r k s) = platformVoices s"
  "synthFails (playUrl u r k s) = synthFails s"
  "synthQueue (playUrl u r k s) = []"
  "now (playUrl u r k s) = now s"
  by (simp_all add: playUrl_def Let_def)

lemma settle_frame [simp]:
  "cachedVoices (settle a ok s) = cachedVoices s"
  "calls (settle a ok s) = calls s"
  "console (settle a ok s) = console s"
  "waiters (settle a ok s) = waiters s"
  "synthQueue (settle a ok s) = synthQueue s"
  "stopSignals (settle a ok s) = stopSignals s"
  by (cases "awaiter (audios s ! a)"; simp add: settle_def Let_def)+

lemma clear_frame [simp]:
  "cachedVoices (clearIfCurrent a s) = cachedVoices s"
  "calls (clearIfCurrent a s) = calls s"
  "console (clearIfCurrent a s) = console s"
  "audios (clearIfCurrent a s) = audios s"
  "microtasks (clearIfCurrent a s) = microtasks s"
  "waiters (clearIfCurrent a s) = waiters s"
  "synthQueue (clearIfCurrent a s) = synthQueue s"
  "stopSignals (clearIfCurrent a s) = stopSignals s"
  by (simp_all add: clearIfCurrent_def)

lemma resolveCall_frame [simp]:
  "cachedVoices (resolveCall c s) = cachedVoices s"
  "audios (resolveCall c s) = audios s"
  "currentAudio (resolveCall c s) = currentAudio s"
  "console (resolveCall c s) = console s"
  "microtasks (resolveCall c s) = microtasks s"
  "waiters (resolveCall c s) = waiters s"
  "synthQueue (resolveCall c s) = synthQueue s"
  "stopSignals (resolveCall c s) = stopSignals s"
  "length (calls (resolveCall c s)) = length (calls s)"
  by (simp_all add: resolveCall_def)

lemma resolveWaiter_frame [simp]:
  "cachedVoices (resolveWaiter w v s) = cachedVoices s"
  "audios (resolveWaiter w v s) = audios s"
  "calls (resolveWaiter w v s) = calls s"
  "console (resolveWaiter w v s) = console s"
  "synthQueue (resolveWaiter w v s) = synthQueue s"
  "platformVoices (resolveWaiter w v s) = platformVoices s"
  "now (resolveWaiter w v s) = now s"
  by (simp_all add: resolveWaiter_def Let_def)

lemma handler_frame [simp]:
  "audios (handler w s) = audios s"
  "calls (handler w s) = calls s"
  "console (handler w s) = console s"
  "synthQueue (handler w s) = synthQueue s"
  "platformVoices (handler w s) = platformVoices s"
  by (simp_all add: handler_def Let_def)

lemma timeout_frame [simp]:
  "cachedVoices (timeout w s) = cachedVoices s"
  "audios (timeout w s) = audios s"
  "calls (timeout w s) = calls s"
  "console (timeout w s) = console s"
  "synthQueue (timeout w s) = synthQueue s"
  "platformVoices (timeout w s) = platformVoices s"
  by (simp_all add: timeout_def Let_def)

lemma speakLoop_frame:
  "cachedVoices (stateOf (speakLoop n t a r v s)) = cachedVoices s \<and>
   audios (stateOf (speakLoop n t a r v s)) = audios s \<and>
   calls (stateOf (speakLoop n t a r v s)) = calls s \<and>
   console (stateOf (speakLoop n t a r v s)) = console s \<and>
   microtasks (stateOf (speakLoop n t a r v s)) = microtasks s \<and>
   waiters (stateOf (speakLoop n t a r v s)) = waiters s"
  by (induction n arbitrary: s) (simp_all add: stateOf_def synthSpeak_def)

text \<open>The \<open>try\<close>/\<open>catch\<close> of \<open>playTextToSpeech\<close> always ends in a normal return.\<close>

lemma speakResume_alt:
  "speakResume c t a r n vs s =
     resolveCall c
       (case speakLoop (nat n) t a r (targetVoice vs a) s of
          Inr s' \<Rightarrow> s'
        | Inl (e, s') \<Rightarrow> s'\<lparr>console := console s' @ [Error ''TTS Error'']\<rparr>)"
  by (cases "speakLoop (nat n) t a r (targetVoice vs a) s")
     (auto simp: speakResume_def asyncFinish_def)

lemma speakResume_frame [simp]:
  "cachedVoices (speakResume c t a r n vs s) = cachedVoices s"
  "audios (speakResume c t a r n vs s) = audios s"
  "waiters (speakResume c t a r n vs s) = waiters s"
  "microtasks (speakResume c t a r n vs s) = microtasks s"
  using speakLoop_frame[of "nat n" t a r "targetVoice vs a" s]
  by (cases "speakLoop (nat n) t a r (targetVoice vs a) s"; auto simp: speakResume_alt stateOf_def)+

lemma element_frame [simp]:
  "cachedVoices (setStatus a st s) = cachedVoices s"
  "calls (setStatus a st s) = calls s"
  "cachedVoices (setPlayPending a b s) = cachedVoices s"
  "calls (setPlayPending a b s) = calls s"
  by (simp_all add: setStatus_def setPlayPending_def)

lemma loaded_core: "stableCore (\<lambda>s. cachedVoices s \<noteq> [])"
  unfolding stableCore_def preserves_def
  by (simp add: updateVoices_def waitForVoices_def Let_def)

lemma loaded_env: "stableEnv (\<lambda>s. cachedVoices s \<noteq> [])"
  unfolding stableEnv_def preserves_def
  by (simp add: updateVoices_def handler_def Let_def)

lemma loaded_at: "stableAt (\<lambda>s. cachedVoices s \<noteq> []) a"
  unfolding stableAt_def preserves_def by simp

subsection \<open>Voice selection and the utterance loop\<close>


lemma speakLoop_queue:
  "\<not> synthFails s \<Longrightarrow>
   speakLoop n t a r v s = Inr (s\<lparr>synthQueue := synthQueue s @ replicate n (mkUtterance t a r v)\<rparr>)"
proof (induction n arbitrary: s)
  case 0
  then show ?case by simp
next
  case (Suc n)
  then show ?case by (simp add: synthSpeak_def replicate_app_Cons_same)
qed

lemma speakLoop_fails:
  "synthFails s \<Longrightarrow> 0 < n \<Longrightarrow> speakLoop n t a r v s = Inl (SynthesisError, s)"
  by (cases n) (simp_all add: synthSpeak_def)

lemma new_call_resolved:
  "asyncFinish (length (calls s)) (Inr (s\<lparr>calls := calls s @ [Pending]\<rparr>)) = s\<lparr>calls := calls s @ [Resolved]\<rparr>"
  by (simp add: asyncFinish_def resolveCall_def modify_def)

subsection \<open>playTextToSpeech up to its await\<close>

lemma waitForVoices_ready:
  "voicesNow s \<noteq> [] \<Longrightarrow>
   microtasks (waitForVoices c t a r n s) = microtasks s @ [VoicesReady c t a r n (voicesNow s)] \<and>
   waiters (waitForVoices c t a r n s) = waiters s"
  by (cases "isLoaded s \<and> cachedVoices s \<noteq> []")
     (simp_all add: waitForVoices_def voicesNow_def Let_def)

lemma waitForVoices_suspend:
  "voicesNow s = [] \<Longrightarrow>
   waitForVoices c t a r n s =
     s\<lparr>waiters := waiters s @
         [\<lparr>wresult = None, wlistening = True, wtimer = Some (now s + 2000),
           wcall = c, wtext = t, waccent = a, wrate = r, wrepeat = n\<rparr>]\<rparr>"
  by (cases "isLoaded s \<and> cachedVoices s \<noteq> []")
     (simp_all add: waitForVoices_def voicesNow_def Let_def)

lemma waitForVoices_env [simp]:
  "synthFails (waitForVoices c t a r n s) = synthFails s"
  "platformVoices (waitForVoices c t a r n s) = platformVoices s"
  "now (waitForVoices c t a r n s) = now s"
  by (simp_all add: waitForVoices_def Let_def)

lemma resume_idle: "\<not> synthPaused x \<Longrightarrow> x\<lparr>synthPaused := False\<rparr> = x"
  by (cases x) simp

text \<open>The state in which \<open>playTextToSpeech\<close> calls \<open>waitForVoices\<close>.\<close>

lemma playTextToSpeech_unfold:
  assumes "t \<noteq> []" and "0 < n"
  shows "playTextToSpeech t a r n s =
     waitForVoices (length (calls s)) t a r n
       ((stopAudio s)\<lparr>calls := calls s @ [Pending], synthPaused := False\<rparr>)"
proof (cases "synthPaused (stopAudio s)")
  case True
  then show ?thesis using assms
    by (simp add: playTextToSpeech_def Let_def stopAudio_calls)
next
  case False
  then have "\<not> synthPaused ((stopAudio s)\<lparr>calls := calls s @ [Pending]\<rparr>)" by simp
  then have e: "(stopAudio s)\<lparr>calls := calls s @ [Pending], synthPaused := False\<rparr> =
                (stopAudio s)\<lparr>calls := calls s @ [Pending]\<rparr>"
    by (rule resume_idle)
  have p: "playTextToSpeech t a r n s =
     waitForVoices (length (calls s)) t a r n ((stopAudio s)\<lparr>calls := calls s @ [Pending]\<rparr>)"
    using assms False by (simp add: playTextToSpeech_def Let_def stopAudio_calls)
  show ?thesis by (subst e) (rule p)
qed

lemma stopAudio_env [simp]:
  "synthPaused (stopAudio s) = synthPaused s"
  "cachedVoices (stopAudio s) = cachedVoices s"
  "voicesNow (stopAudio s) = voicesNow s"
  by (cases "currentAudio s"; simp add: stopAudio_def Let_def voicesNow_def)+

lemma voicesNow_simps [simp]:
  "voicesNow (s\<lparr>calls := cs\<rparr>) = voicesNow s"
  "voicesNow (s\<lparr>synthPaused := b\<rparr>) = voicesNow s"
  "voicesNow (s\<lparr>microtasks := ms\<rparr>) = voicesNow s"
  "voicesNow (s\<lparr>console := co\<rparr>) = voicesNow s"
  by (simp_all add: voicesNow_def)

subsection \<open>Waiters, listeners and timers\<close>

lemma env_frame [simp]:
  "platformVoices (settle a ok s) = platformVoices s"
  "now (settle a ok s) = now s"
  "platformVoices (clearIfCurrent a s) = platformVoices s"
  "now (clearIfCurrent a s) = now s"
  "platformVoices (resolveCall c s) = platformVoices s"
  "now (resolveCall c s) = now s"
  "waiters (setStatus a st s) = waiters s"
  "platformVoices (setStatus a st s) = platformVoices s"
  "now (setStatus a st s) = now s"
  "waiters (setPlayPending a b s) = waiters s"
  "platformVoices (setPlayPending a b s) = platformVoices s"
  "now (setPlayPending a b s) = now s"
  "waiters (updateVoices s) = waiters s"
  "platformVoices (updateVoices s) = platformVoices s"
  "now (updateVoices s) = now s"
  "now (handler w s) = now s"
  "now (timeout w s) = now s"
  by (cases "awaiter (audios s ! a)";
      simp add: settle_def clearIfCurrent_def resolveCall_def setStatus_def setPlayPending_def
        updateVoices_def handler_def timeout_def Let_def)+

lemma speakLoop_env:
  "platformVoices (stateOf (speakLoop n t a r v s)) = platformVoices s \<and>
   now (stateOf (speakLoop n t a r v s)) = now s"
  by (induction n arbitrary: s) (simp_all add: stateOf_def synthSpeak_def)

lemma speakResume_env [simp]:
  "platformVoices (speakResume c t a r n vs s) = platformVoices s"
  "now (speakResume c t a r n vs s) = now s"
  using speakLoop_env[of "nat n" t a r "targetVoice vs a" s]
  by (cases "speakLoop (nat n) t a r (targetVoice vs a) s"; auto simp: speakResume_alt stateOf_def)+

lemma nth_modify_other: "i \<noteq> j \<Longrightarrow> modify i f xs ! j = xs ! j"
  by (simp add: modify_def)

lemma waiters_length [simp]:
  "length (waiters (resolveWaiter w v s)) = length (waiters s)"
  "length (waiters (handler w s)) = length (waiters s)"
  "length (waiters (timeout w s)) = length (waiters s)"
  by (simp_all add: resolveWaiter_def handler_def timeout_def Let_def)

lemma waiter_other:
  assumes "w' \<noteq> w"
  shows "waiters (resolveWaiter w' v s) ! w = waiters s ! w"
    and "waiters (handler w' s) ! w = waiters s ! w"
    and "waiters (timeout w' s) ! w = waiters s ! w"
  using assms by (simp_all add: resolveWaiter_def handler_def timeout_def Let_def nth_modify_other)

lemma microtasks_grow:
  "set (microtasks s) \<subseteq> set (microtasks (resolveWaiter w v s))"
  "set (microtasks s) \<subseteq> set (microtasks (handler w s))"
  "set (microtasks s) \<subseteq> set (microtasks (timeout w s))"
  by (auto simp: resolveWaiter_def handler_def timeout_def Let_def)

lemma fold_handler_other:
  "w \<notin> set ws \<Longrightarrow>
   waiters (fold handler ws s) ! w = waiters s ! w \<and>
   length (waiters (fold handler ws s)) = length (waiters s) \<and>
   platformVoices (fold handler ws s) = platformVoices s \<and>
   now (fold handler ws s) = now s \<and>
   set (microtasks s) \<subseteq> set (microtasks (fold handler ws s))"
proof (induction ws arbitrary: s)
  case Nil
  then show ?case by simp
next
  case (Cons x ws)
  then have "x \<noteq> w" and "w \<notin> set ws" by auto
  with Cons.IH[of "handler x s"] microtasks_grow(2)[of s x] show ?case
    by (auto simp: waiter_other)
qed

lemma fold_timeout_other:
  "w \<notin> set ws \<Longrightarrow>
   waiters (fold timeout ws s) ! w = waiters s ! w \<and>
   length (waiters (fold timeout ws s)) = length (waiters s) \<and>
   platformVoices (fold timeout ws s) = platformVoices s \<and>
   now (fold timeout ws s) = now s \<and>
   set (microtasks s) \<subseteq> set (microtasks (fold timeout ws s))"
proof (induction ws arbitrary: s)
  case Nil
  then show ?case by simp
next
  case (Cons x ws)
  then have "x \<noteq> w" and "w \<notin> set ws" by auto
  with Cons.IH[of "timeout x s"] microtasks_grow(3)[of s x] show ?case
    by (auto simp: waiter_other)
qed

lemma handler_resolves:
  assumes "pendingAt s w dl" and "platformVoices s \<noteq> []"
  shows "wresult (waiters (handler w s) ! w) = Some (platformVoices s) \<and>
         taskOf (waiters s ! w) (platformVoices s) \<in> set (microtasks (handler w s)) \<and>
         cachedVoices (handler w s) = platformVoices s"
  using assms
  by (simp add: pendingAt_def handler_def resolveWaiter_def Let_def nth_modify taskOf_def)

lemma timeout_resolves:
  assumes "pendingAt s w dl"
  shows "wresult (waiters (timeout w s) ! w) = Some (platformVoices s) \<and>
         taskOf (waiters s ! w) (platformVoices s) \<in> set (microtasks (timeout w s))"
  using assms
  by (simp add: pendingAt_def timeout_def resolveWaiter_def Let_def nth_modify taskOf_def)

lemma handler_silent: "platformVoices s = [] \<Longrightarrow> handler w s = s"
  by (simp add: handler_def)

lemma fold_handler_silent: "platformVoices s = [] \<Longrightarrow> fold handler ws s = s"
  by (induction ws) (simp_all add: handler_silent)

lemma updateVoices_silent: "platformVoices s = [] \<Longrightarrow> updateVoices s = s"
  by (simp add: updateVoices_def)

lemma listeners_set: "set (listeners s) = {w. w < length (waiters s) \<and> wlistening (waiters s ! w)}"
  by (auto simp: listeners_def)

lemma dueTimers_set:
  "set (dueTimers t s) = {w. w < length (waiters s) \<and> (\<exists>d. wtimer (waiters s ! w) = Some d \<and> d \<le> t)}"
  by (auto simp: dueTimers_def split: option.splits)

lemma distinct_listeners [simp]: "distinct (listeners s)" "distinct (dueTimers t s)"
  by (simp_all add: listeners_def dueTimers_def)

lemma pendingAt_cong:
  "waiters s' ! w = waiters s ! w \<Longrightarrow> length (waiters s') = length (waiters s) \<Longrightarrow>
   pendingAt s' w dl = pendingAt s w dl"
  by (simp add: pendingAt_def)

text \<open>A fold over distinct waiters that contains \<open>w\<close> runs \<open>w\<close>'s callback exactly once.\<close>

lemma fold_handler_resolves:
  assumes p: "pendingAt s w dl" and v: "platformVoices s \<noteq> []"
    and w: "w \<in> set ws" and d: "distinct ws"
  shows "wresult (waiters (fold handler ws s) ! w) = Some (platformVoices s) \<and>
         taskOf (waiters s ! w) (platformVoices s) \<in> set (microtasks (fold handler ws s))"
proof -
  from w obtain ys zs where ws: "ws = ys @ w # zs" by (auto dest: split_list)
  with d have ny: "w \<notin> set ys" and nz: "w \<notin> set zs" by auto
  let ?s3 = "fold handler ys s"
  let ?s4 = "handler w ?s3"
  have 3: "waiters ?s3 ! w = waiters s ! w" "length (waiters ?s3) = length (waiters s)"
    "platformVoices ?s3 = platformVoices s"
    using fold_handler_other[OF ny, of s] by simp_all
  then have p3: "pendingAt ?s3 w dl" using p pendingAt_cong[of ?s3 w s dl] by simp
  have 4: "wresult (waiters ?s4 ! w) = Some (platformVoices s)"
    "taskOf (waiters s ! w) (platformVoices s) \<in> set (microtasks ?s4)"
    using handler_resolves[OF p3] v 3 by simp_all
  have 5: "waiters (fold handler zs ?s4) ! w = waiters ?s4 ! w"
    "set (microtasks ?s4) \<subseteq> set (microtasks (fold handler zs ?s4))"
    using fold_handler_other[OF nz, of ?s4] by simp_all
  show ?thesis using 4 5 by (auto simp: ws)
qed

lemma fold_timeout_resolves:
  assumes p: "pendingAt s w dl" and w: "w \<in> set ws" and d: "distinct ws"
  shows "wresult (waiters (fold timeout ws s) ! w) = Some (platformVoices s) \<and>
         taskOf (waiters s ! w) (platformVoices s) \<in> set (microtasks (fold timeout ws s))"
proof -
  from w obtain ys zs where ws: "ws = ys @ w # zs" by (auto dest: split_list)
  with d have ny: "w \<notin> set ys" and nz: "w \<notin> set zs" by auto
  let ?s3 = "fold timeout ys s"
  let ?s4 = "timeout w ?s3"
  have 3: "waiters ?s3 ! w = waiters s ! w" "length (waiters ?s3) = length (waiters s)"
    "platformVoices ?s3 = platformVoices s"
    using fold_timeout_other[OF ny, of s] by simp_all
  then have p3: "pendingAt ?s3 w dl" using p pendingAt_cong[of ?s3 w s dl] by simp
  have 4: "wresult (waiters ?s4 ! w) = Some (platformVoices s)"
    "taskOf (waiters s ! w) (platformVoices s) \<in> set (microtasks ?s4)"
    using timeout_resolves[OF p3] 3 by simp_all
  have 5: "waiters (fold timeout zs ?s4) ! w = waiters ?s4 ! w"
    "set (microtasks ?s4) \<subseteq> set (microtasks (fold timeout zs ?s4))"
    using fold_timeout_other[OF nz, of ?s4] by simp_all
  show ?thesis using 4 5 by (auto simp: ws)
qed

lemma voicesChanged_resolves:
  assumes p: "pendingAt x w dl" and v: "v \<noteq> []"
  shows "wresult (waiters (step (VoicesChanged v) x) ! w) = Some v \<and>
         taskOf (waiters x ! w) v \<in> set (microtasks (step (VoicesChanged v) x))"
proof -
  define s2 where "s2 = (if onvoiceschanged (x\<lparr>platformVoices := v\<rparr>)
                         then updateVoices (x\<lparr>platformVoices := v\<rparr>) else x\<lparr>platformVoices := v\<rparr>)"
  have st: "step (VoicesChanged v) x = fold handler (listeners s2) s2"
    by (simp add: step_def Let_def s2_def)
  have w2: "waiters s2 = waiters x" and v2: "platformVoices s2 = v" by (simp_all add: s2_def)
  have p2: "pendingAt s2 w dl" using p by (simp only: pendingAt_def w2)
  have v2': "platformVoices s2 \<noteq> []" using v v2 by simp
  have "w \<in> set (listeners s2)" using p by (simp only: listeners_set w2) (simp add: pendingAt_def)
  from fold_handler_resolves[OF p2 v2' this]
  show ?thesis by (simp only: st v2 w2) simp
qed

lemma advance_resolves:
  assumes p: "pendingAt x w dl" and d: "dl \<le> now x + d"
  shows "wresult (waiters (step (Advance d) x) ! w) = Some (platformVoices x) \<and>
         taskOf (waiters x ! w) (platformVoices x) \<in> set (microtasks (step (Advance d) x))"
proof -
  have "w \<in> set (dueTimers (now x + d) x)" using p d by (simp add: dueTimers_set pendingAt_def)
  from fold_timeout_resolves[OF p this] show ?thesis by (simp add: step_def Let_def)
qed

lemma advance_early:
  assumes p: "pendingAt x w dl" and d: "now x + d < dl"
  shows "pendingAt (step (Advance d) x) w dl \<and>
         platformVoices (step (Advance d) x) = platformVoices x \<and>
         now (step (Advance d) x) = now x + d"
proof -
  have "w \<notin> set (dueTimers (now x + d) x)" using p d by (simp add: dueTimers_set pendingAt_def)
  from fold_timeout_other[OF this, of x] p show ?thesis
    by (simp add: step_def Let_def pendingAt_def)
qed

lemma waiting_core: "stableCore (\<lambda>s. waitingAt s w dl t)"
  unfolding stableCore_def preserves_def waitingAt_def pendingAt_def
  by (simp add: waitForVoices_def Let_def nth_append)

lemma waiting_at: "stableAt (\<lambda>s. waitingAt s w dl t) a"
  unfolding stableAt_def preserves_def waitingAt_def pendingAt_def by simp

lemma step_waiting:
  assumes "waitingAt s w dl t" and "\<not> envEvent e"
  shows "waitingAt (step e s) w dl t"
  using preserves_step[of "\<lambda>s. waitingAt s w dl t" e, OF waiting_core waiting_at] assms
  by (simp add: preserves_def)

lemma step_waiting_voices:
  assumes "waitingAt s w dl t"
  shows "waitingAt (step (VoicesChanged []) s) w dl t"
proof -
  let ?s1 = "s\<lparr>platformVoices := []\<rparr>"
  have 1: "platformVoices ?s1 = []" by simp
  have "step (VoicesChanged []) s = ?s1"
    by (simp add: step_def Let_def updateVoices_silent[OF 1] fold_handler_silent[OF 1])
  then show ?thesis using assms by (simp add: waitingAt_def pendingAt_def)
qed

lemma step_waiting_advance:
  assumes "waitingAt s w dl t" and "t + d < dl"
  shows "waitingAt (step (Advance d) s) w dl (t + d)"
  using assms advance_early[of s w dl d] by (simp add: waitingAt_def)

lemma run_Cons: "run (e # es) s = run es (step e s)"
  by (simp add: run_def)

lemma run_append: "run (es1 @ es2) s = run es2 (run es1 s)"
  by (simp add: run_def)

lemma run_waiting:
  "waitingAt s w dl t \<Longrightarrow> silent es \<Longrightarrow> t + elapsed es < dl \<Longrightarrow>
   waitingAt (run es s) w dl (t + elapsed es)"
proof (induction es arbitrary: s t)
  case Nil
  then show ?case by (simp add: run_def)
next
  case (Cons e es)
  show ?case
  proof (cases "envEvent e")
    case False
    then have e: "elapsed (e # es) = elapsed es" "silent (e # es) = silent es"
      by (cases e; simp add: envEvent_def)+
    from Cons.prems(1) False have "waitingAt (step e s) w dl t" by (rule step_waiting)
    from Cons.IH[OF this] Cons.prems(2,3) show ?thesis by (simp add: run_Cons e)
  next
    case True
    then consider v where "e = VoicesChanged v" | d where "e = Advance d"
      by (cases e) (simp_all add: envEvent_def)
    then show ?thesis
    proof cases
      case 1
      with Cons.prems(2) have v: "v = []" and s: "silent es" by simp_all
      from Cons.prems(1) have "waitingAt (step e s) w dl t"
        unfolding 1 v by (rule step_waiting_voices)
      from Cons.IH[OF this s] Cons.prems(3) show ?thesis by (simp add: run_Cons 1 v)
    next
      case 2
      with Cons.prems(2,3) have s: "silent es" and t: "t + d < dl" "(t + d) + elapsed es < dl"
        by simp_all
      from Cons.prems(1) t(1) have "waitingAt (step e s) w dl (t + d)"
        unfolding 2 by (rule step_waiting_advance)
      from Cons.IH[OF this s t(2)] show ?thesis by (simp add: run_Cons 2 add.assoc)
    qed
  qed
qed

subsection \<open>The promise of an element\<close>

lemma modify_proj: "(\<And>el. g (f el) = g el) \<Longrightarrow> g (modify i f xs ! j) = g (xs ! j)"
  by (cases "i = j") (simp_all add: modify_def)

lemma promise_frame [simp]:
  "promise (audios (setStatus a st s) ! y) = promise (audios s ! y)"
  "promise (audios (setPlayPending a b s) ! y) = promise (audios s ! y)"
  "promise (modify a pause (audios s) ! y) = promise (audios s ! y)"
  "promise (modify a (\<lambda>el. el\<lparr>currentTime := t\<rparr>) (audios s) ! y) = promise (audios s ! y)"
  by (simp_all add: setStatus_def setPlayPending_def modify_proj pause_def)

lemma promise_stopAudio [simp]: "promise (audios (stopAudio s) ! y) = promise (audios s ! y)"
  by (cases "currentAudio s") (simp_all add: stopAudio_def Let_def modify_proj pause_def)

lemma element_length [simp]:
  "length (audios (setStatus a st s)) = length (audios s)"
  "length (audios (setPlayPending a b s)) = length (audios s)"
  by (simp_all add: setStatus_def setPlayPending_def)

lemma element_current [simp]:
  "currentAudio (setStatus a st s) = currentAudio s"
  "currentAudio (setPlayPending a b s) = currentAudio s"
  by (simp_all add: setStatus_def setPlayPending_def)

lemma audios_updateVoices [simp]: "audios (updateVoices s) = audios s"
  by (simp add: updateVoices_def Let_def)

lemma promise_settle:
  "promise (audios (settle a ok s) ! y) =
     (if y = a \<and> a < length (audios s) \<and> promise (audios s ! a) = Pending
      then (if ok then Resolved else Rejected) else promise (audios s ! y))"
  by (cases "awaiter (audios s ! a)"; cases "y = a")
     (simp_all add: settle_def Let_def modify_def)

lemma promiseIs_core: "stableCore (promiseIs x p)"
  unfolding stableCore_def preserves_def promiseIs_def
  by (simp add: playUrl_audios nth_append)

lemma promiseIs_env: "stableEnv (promiseIs x p)"
  unfolding stableEnv_def preserves_def promiseIs_def by simp

lemma promiseIs_at: "a \<noteq> x \<or> p \<noteq> Pending \<Longrightarrow> stableAt (promiseIs x p) a"
  unfolding stableAt_def preserves_def promiseIs_def
  by (auto simp: promise_settle)

text \<open>A settled promise stays as it is.\<close>

lemma promise_settled:
  assumes "promiseIs x p s" and "p \<noteq> Pending"
  shows "promiseIs x p (step e s)"
  using preserves_step[of "promiseIs x p" e, OF promiseIs_core promiseIs_at promiseIs_env] assms
  by (simp add: preserves_def)

lemma status_frame [simp]:
  "pstatus (audios (setPlayPending a b s) ! y) = pstatus (audios s ! y)"
  "playPending (audios (setStatus a st s) ! y) = playPending (audios s ! y)"
  "playPending (modify a pause (audios s) ! y) = playPending (audios s ! y)"
  by (simp_all add: setStatus_def setPlayPending_def modify_proj pause_def)

text \<open>A pending promise is settled by the three events of its element and by nothing else.\<close>

lemma promise_pending:
  assumes p: "promiseIs x Pending s"
  shows "promiseIs x (if fires e s x then (if e = AudioEnded x then Resolved else Rejected) else Pending)
           (step e s)"
proof (cases "elementOf e = Some x")
  case False
  then have nf: "\<not> fires e s x" by (auto simp: fires_def elementOf_def)
  have "stableAt (promiseIs x Pending) a" if "elementOf e = Some a" for a
    using that False by (intro promiseIs_at) auto
  from preserves_step[of "promiseIs x Pending" e, OF promiseIs_core this promiseIs_env] p
  show ?thesis using nf by (simp add: preserves_def)
next
  case True
  from p have x: "x < length (audios s)" and pe: "promise (audios s ! x) = Pending"
    by (simp_all add: promiseIs_def)
  from True consider "e = AudioEnded x" | "e = AudioError x" | "e = PlayRejected x"
    | "e = PlayResolved x" | t where "e = TimeUpdate x t"
    by (cases e) (simp_all add: elementOf_def)
  then show ?thesis
  proof cases
    case 1
    then show ?thesis using x pe
      by (simp add: promiseIs_def fires_def step_def onended_def promise_settle)
  next
    case 2
    then show ?thesis using x pe
      by (simp add: promiseIs_def fires_def step_def onerror_def promise_settle)
  next
    case 3
    then show ?thesis using x pe
      by (simp add: promiseIs_def fires_def step_def playCatch_def promise_settle)
  next
    case 4
    then show ?thesis using x pe
      by (simp add: promiseIs_def fires_def step_def)
  next
    case 5
    then show ?thesis using x pe
      by (simp add: promiseIs_def fires_def step_def)
  qed
qed

text \<open>The handle after one of the three events of element \<open>x\<close>.\<close>

lemma handle_guard:
  assumes "e = AudioEnded x \<or> e = AudioError x \<or> e = PlayRejected x"
  shows "currentAudio (step e s) =
           (if fires e s x \<and> currentAudio s = Some x then None else currentAudio s)"
  using assms
  by (auto simp: fires_def step_def onended_def onerror_def playCatch_def clearIfCurrent_def)

subsection \<open>Settling an awaited promise\<close>

lemma src_modify [simp]:
  "map src (modify a pause xs) = map src xs"
  "map src (modify a (\<lambda>el. (pause el)\<lparr>currentTime := t\<rparr>) xs) = map src xs"
  "map src (modify a (\<lambda>el. el\<lparr>pstatus := st\<rparr>) xs) = map src xs"
  "map src (modify a (\<lambda>el. el\<lparr>playPending := b\<rparr>) xs) = map src xs"
  "map src (modify a (\<lambda>el. el\<lparr>promise := p\<rparr>) xs) = map src xs"
  by (simp_all add: map_modify pause_def)

lemma keep_current: "currentAudio x = c \<Longrightarrow> x\<lparr>currentAudio := c\<rparr> = x"
  by (cases x) simp

lemma clearIfCurrent_form:
  "clearIfCurrent a s = s\<lparr>currentAudio := (if currentAudio s = Some a then None else currentAudio s)\<rparr>"
proof (cases "currentAudio s = Some a")
  case True
  then show ?thesis by (simp add: clearIfCurrent_def)
next
  case False
  have "s\<lparr>currentAudio := currentAudio s\<rparr> = s" by (rule keep_current) simp
  with False show ?thesis by (simp add: clearIfCurrent_def)
qed

lemma settle_form:
  assumes "a < length (audios s)" and "promise (audios s ! a) = Pending"
    and "awaiter (audios s ! a) = Some k"
  shows "settle a ok s =
           s\<lparr>audios := modify a (\<lambda>el. el\<lparr>promise := (if ok then Resolved else Rejected)\<rparr>) (audios s),
             microtasks := microtasks s @ [AudioSettled k ok]\<rparr>"
  using assms by (simp add: settle_def Let_def)

text \<open>
  The handlers of element \<open>a\<close>, run on a state that differs from \<open>s\<close> in its store only,
  while the promise of \<open>a\<close> is pending and awaited by \<open>k\<close>.
\<close>

lemma handlers_form:
  assumes a: "a < length B" and p: "promise (B ! a) = Pending" and k: "awaiter (B ! a) = Some k"
    and B: "map src B = map src (audios s)"
  shows "\<exists>A. map src A = map src (audios s) \<and>
           settle a ok (clearIfCurrent a (s\<lparr>audios := B\<rparr>)) =
             s\<lparr>audios := A,
               currentAudio := (if currentAudio s = Some a then None else currentAudio s),
               microtasks := microtasks s @ [AudioSettled k ok]\<rparr>"
proof -
  let ?c = "if currentAudio s = Some a then None else currentAudio s"
  let ?s3 = "s\<lparr>audios := B, currentAudio := ?c\<rparr>"
  let ?A = "modify a (\<lambda>el. el\<lparr>promise := (if ok then Resolved else Rejected)\<rparr>) B"
  have 3: "clearIfCurrent a (s\<lparr>audios := B\<rparr>) = ?s3"
    by (subst clearIfCurrent_form) simp
  have "settle a ok ?s3 = ?s3\<lparr>audios := ?A, microtasks := microtasks ?s3 @ [AudioSettled k ok]\<rparr>"
    using settle_form[of a ?s3 k ok] a p k by simp
  then have "settle a ok (clearIfCurrent a (s\<lparr>audios := B\<rparr>)) =
             s\<lparr>audios := ?A, currentAudio := ?c, microtasks := microtasks s @ [AudioSettled k ok]\<rparr>"
    by (simp only: 3) simp
  moreover have "map src ?A = map src (audios s)" using B by simp
  ultimately show ?thesis by blast
qed

text \<open>
  One of the three events of element \<open>a\<close>, fired while the promise of \<open>a\<close> is pending and
  awaited by \<open>k\<close>: the store keeps its sources, the handle is cleared if it was \<open>a\<close>, the
  continuation is queued, and nothing else changes.
\<close>

lemma settling_form:
  assumes e: "e = AudioEnded a \<or> e = AudioError a \<or> e = PlayRejected a"
    and f: "fires e s a" and p: "promise (audios s ! a) = Pending"
    and k: "awaiter (audios s ! a) = Some k"
  shows "\<exists>A. map src A = map src (audios s) \<and>
           step e s = s\<lparr>audios := A,
                        currentAudio := (if currentAudio s = Some a then None else currentAudio s),
                        microtasks := microtasks s @ [AudioSettled k (e = AudioEnded a)]\<rparr>"
proof -
  from f have a: "a < length (audios s)" by (simp add: fires_def)
  from e consider "e = AudioEnded a" | "e = AudioError a" | "e = PlayRejected a" by blast
  then show ?thesis
  proof cases
    case 1
    let ?B = "modify a (\<lambda>el. el\<lparr>playPending := False\<rparr>)
                 (modify a (\<lambda>el. el\<lparr>pstatus := Ended\<rparr>) (audios s))"
    from 1 f have "pstatus (audios s ! a) = Playing" by (simp add: fires_def)
    then have st: "step (AudioEnded a) s = settle a True (clearIfCurrent a (s\<lparr>audios := ?B\<rparr>))"
      using a by (simp add: step_def onended_def setStatus_def setPlayPending_def)
    have "\<exists>A. map src A = map src (audios s) \<and>
           settle a True (clearIfCurrent a (s\<lparr>audios := ?B\<rparr>)) =
             s\<lparr>audios := A,
               currentAudio := (if currentAudio s = Some a then None else currentAudio s),
               microtasks := microtasks s @ [AudioSettled k True]\<rparr>"
      by (rule handlers_form) (simp_all add: a p k nth_modify)
    then show ?thesis by (simp only: st 1 simp_thms)
  next
    case 2
    let ?B = "modify a (\<lambda>el. el\<lparr>pstatus := Errored\<rparr>) (audios s)"
    from 2 f have "pstatus (audios s ! a) = Playing \<or> pstatus (audios s ! a) = Paused"
      by (simp add: fires_def)
    then have st: "step (AudioError a) s = settle a False (clearIfCurrent a (s\<lparr>audios := ?B\<rparr>))"
      using a by (auto simp: step_def onerror_def setStatus_def)
    have "\<exists>A. map src A = map src (audios s) \<and>
           settle a False (clearIfCurrent a (s\<lparr>audios := ?B\<rparr>)) =
             s\<lparr>audios := A,
               currentAudio := (if currentAudio s = Some a then None else currentAudio s),
               microtasks := microtasks s @ [AudioSettled k False]\<rparr>"
      by (rule handlers_form) (simp_all add: a p k nth_modify)
    then show ?thesis by (simp only: st 2 event.distinct simp_thms)
  next
    case 3
    let ?B = "modify a (\<lambda>el. el\<lparr>playPending := False\<rparr>) (modify a pause (audios s))"
    from 3 f have "playPending (audios s ! a)" by (simp add: fires_def)
    then have st: "step (PlayRejected a) s = settle a False (clearIfCurrent a (s\<lparr>audios := ?B\<rparr>))"
      using a by (simp add: step_def playCatch_def setPlayPending_def)
    have "\<exists>A. map src A = map src (audios s) \<and>
           settle a False (clearIfCurrent a (s\<lparr>audios := ?B\<rparr>)) =
             s\<lparr>audios := A,
               currentAudio := (if currentAudio s = Some a then None else currentAudio s),
               microtasks := microtasks s @ [AudioSettled k False]\<rparr>"
      by (rule handlers_form) (simp_all add: a p k nth_modify pause_def)
    then show ?thesis by (simp only: st 3 event.distinct simp_thms)
  qed
qed

lemma stopAudio_form:
  "\<exists>A. map src A = map src (audios s) \<and>
       stopAudio s = s\<lparr>synthQueue := [], audios := A, currentAudio := None,
                       stopSignals := Suc (stopSignals s)\<rparr>"
proof (cases "currentAudio s")
  case None
  then have "stopAudio s = s\<lparr>synthQueue := [], audios := audios s, currentAudio := None,
                       stopSignals := Suc (stopSignals s)\<rparr>"
    by (simp add: stopAudio_def Let_def)
  then show ?thesis by blast
next
  case (Some a)
  let ?A = "modify a (\<lambda>el. (pause el)\<lparr>currentTime := 0\<rparr>) (audios s)"
  have "stopAudio s = s\<lparr>synthQueue := [], audios := ?A, currentAudio := None,
                       stopSignals := Suc (stopSignals s)\<rparr>"
    using Some by (simp add: stopAudio_def Let_def)
  moreover have "map src ?A = map src (audios s)" by simp
  ultimately show ?thesis by blast
qed

lemma playUrl_form:
  "\<exists>A. map src A = map src (audios s) \<and>
       playUrl u r k s = s\<lparr>synthQueue := [], audios := A @ [started u r k],
                          currentAudio := Some (length (audios s)),
                          stopSignals := Suc (stopSignals s)\<rparr>"
proof -
  from stopAudio_form[of s] obtain A where A: "map src A = map src (audios s)"
    and st: "stopAudio s = s\<lparr>synthQueue := [], audios := A, currentAudio := None,
                       stopSignals := Suc (stopSignals s)\<rparr>" by blast
  from A have l: "length A = length (audios s)" by (metis length_map)
  have "playUrl u r k s = s\<lparr>synthQueue := [], audios := A @ [started u r k],
                          currentAudio := Some (length (audios s)),
                          stopSignals := Suc (stopSignals s)\<rparr>"
    by (simp add: playUrl_def Let_def st l modify_def newAudio_def started_def)
  with A show ?thesis by blast
qed

subsection \<open>The fallback chain\<close>

lemma voicesNow_more [simp]:
  "voicesNow (s\<lparr>audios := A\<rparr>) = voicesNow s"
  "voicesNow (s\<lparr>currentAudio := c\<rparr>) = voicesNow s"
  "voicesNow (s\<lparr>synthQueue := q\<rparr>) = voicesNow s"
  "voicesNow (s\<lparr>stopSignals := n\<rparr>) = voicesNow s"
  "voicesNow (resolveCall c' s) = voicesNow s"
  by (simp_all add: voicesNow_def resolveCall_def)

lemma src_stopAudio [simp]: "map src (audios (stopAudio s)) = map src (audios s)"
  using stopAudio_form[of s] by auto

text \<open>What a call of \<open>playTextToSpeech\<close> past its guard does to the observables.\<close>

lemma tts_effect:
  assumes "t \<noteq> []" and "0 < n"
  shows "obs (playTextToSpeech t ac r n y) =
           (map src (audios y), calls y @ [Pending], Suc (stopSignals y), console y) \<and>
         synthQueue (playTextToSpeech t ac r n y) = [] \<and>
         synthFails (playTextToSpeech t ac r n y) = synthFails y \<and>
         ttsScheduled (length (calls y)) t ac r n y (playTextToSpeech t ac r n y)"
proof -
  let ?p = "(stopAudio y)\<lparr>calls := calls y @ [Pending], synthPaused := False\<rparr>"
  have u: "playTextToSpeech t ac r n y = waitForVoices (length (calls y)) t ac r n ?p"
    by (rule playTextToSpeech_unfold[OF assms])
  have o: "obs (waitForVoices (length (calls y)) t ac r n ?p) =
           (map src (audios y), calls y @ [Pending], Suc (stopSignals y), console y)"
    by (simp add: obs_def)
  have v: "voicesNow ?p = voicesNow y" by simp
  have sch: "ttsScheduled (length (calls y)) t ac r n y (waitForVoices (length (calls y)) t ac r n ?p)"
  proof (cases "voicesNow y = []")
    case True
    then have "voicesNow ?p = []" by (simp only: v)
    from waitForVoices_suspend[OF this, of "length (calls y)" t ac r n] True
    show ?thesis by (simp add: ttsScheduled_def)
  next
    case False
    then have "voicesNow ?p \<noteq> []" by (simp only: v) simp
    from waitForVoices_ready[OF this, of "length (calls y)" t ac r n] False
    show ?thesis by (simp add: ttsScheduled_def)
  qed
  show ?thesis using o sch by (simp add: u)
qed

lemma keep_console: "console x = l \<Longrightarrow> x\<lparr>console := l\<rparr> = x"
  by (cases x) simp

lemma step_Microtask:
  "step Microtask s = (case microtasks s of [] \<Rightarrow> s | t # ts \<Rightarrow> runTask t (s\<lparr>microtasks := ts\<rparr>))"
  by (simp add: step_def)

text \<open>The microtask that follows a settling event of the awaited element.\<close>

lemma after_form:
  assumes e: "e = AudioEnded a \<or> e = AudioError a \<or> e = PlayRejected a"
    and w: "awaitingAt s s1 a k"
  shows "\<exists>A. map src A = map src (audios s1) \<and>
           after e s1 =
             runTask (AudioSettled k (e = AudioEnded a))
               (s1\<lparr>audios := A, currentAudio := None, microtasks := []\<rparr>)"
proof -
  from w have f: "fires e s1 a" using e by (auto simp: awaitingAt_def fires_def)
  from w have p: "promise (audios s1 ! a) = Pending" and k: "awaiter (audios s1 ! a) = Some k"
    and c: "currentAudio s1 = Some a" and m: "microtasks s1 = []"
    by (simp_all add: awaitingAt_def)
  from settling_form[OF e f p k] obtain A where A: "map src A = map src (audios s1)"
    and st: "step e s1 = s1\<lparr>audios := A,
                 currentAudio := (if currentAudio s1 = Some a then None else currentAudio s1),
                 microtasks := microtasks s1 @ [AudioSettled k (e = AudioEnded a)]\<rparr>"
    by blast
  have "after e s1 = runTask (AudioSettled k (e = AudioEnded a))
               (s1\<lparr>audios := A, currentAudio := None, microtasks := []\<rparr>)"
    by (simp add: after_def st c m step_Microtask)
  with A show ?thesis by blast
qed

lemma resolve_pending: "c < length cs \<Longrightarrow> cs ! c = Pending \<Longrightarrow>
   modify c (\<lambda>p. if p = Pending then Resolved else p) cs = cs[c := Resolved]"
  by (simp add: modify_def)

lemma after_success:
  assumes w: "awaitingAt s s1 a k" and c: "c < length (calls s1)" "calls s1 ! c = Pending"
    and k: "k = WordAwait c t ac sp \<or> k = ExplicitAwait c t ac sp \<or> k = GenericAwait c t ac sp"
  shows "obs (after (AudioEnded a) s1) =
           (map src (audios s1), (calls s1)[c := Resolved], stopSignals s1, console s1) \<and>
         noTts s (after (AudioEnded a) s1)"
proof -
  from after_form[OF _ w, of "AudioEnded a"] obtain A where A: "map src A = map src (audios s1)"
    and af: "after (AudioEnded a) s1 =
               runTask (AudioSettled k True) (s1\<lparr>audios := A, currentAudio := None, microtasks := []\<rparr>)"
    by auto
  have r: "runTask (AudioSettled k True) x = resolveCall c x" for x
    using k by (auto simp: asyncFinish_def)
  from w have "waiters s1 = waiters s" "synthQueue s1 = []" "microtasks s = []"
    by (simp_all add: awaitingAt_def)
  then show ?thesis using A c
    by (simp add: af r obs_def noTts_def resolveCall_def resolve_pending)
qed

lemma after_tts:
  assumes w: "awaitingAt s s1 a k" and c: "c < length (calls s1)" "calls s1 ! c = Pending"
    and e: "e = AudioError a \<or> e = PlayRejected a" and t: "t \<noteq> []"
    and k: "k = WordAwait c t ac sp \<and> l = [Warn (''Online audio failed for '' @ t @ '', falling back to TTS'')] \<or>
            k = GenericAwait c t ac sp \<and> l = []"
  shows "obs (after e s1) =
           (map src (audios s1), (calls s1)[c := Resolved] @ [Pending], Suc (stopSignals s1),
            console s1 @ l) \<and>
         synthQueue (after e s1) = [] \<and>
         synthFails (after e s1) = synthFails s \<and>
         ttsScheduled (length (calls s1)) t ac sp 1 s (after e s1)"
proof -
  from e have e3: "e = AudioEnded a \<or> e = AudioError a \<or> e = PlayRejected a"
    and ne: "(e = AudioEnded a) = False" by auto
  from after_form[OF e3 w] obtain A where A: "map src A = map src (audios s1)"
    and af: "after e s1 =
               runTask (AudioSettled k False) (s1\<lparr>audios := A, currentAudio := None, microtasks := []\<rparr>)"
    by (auto simp: ne)
  let ?x = "s1\<lparr>audios := A, currentAudio := None, microtasks := []\<rparr>"
  let ?y = "?x\<lparr>console := console ?x @ l\<rparr>"
  have r: "runTask (AudioSettled k False) ?x = resolveCall c (playTextToSpeech t ac sp 1 ?y)"
  proof -
    have "?x\<lparr>console := console ?x @ []\<rparr> = ?x" by (rule keep_console) simp
    then show ?thesis using k by (auto simp: asyncFinish_def)
  qed
  from tts_effect[OF t, of 1 ac sp ?y]
  have o: "obs (playTextToSpeech t ac sp 1 ?y) =
             (map src (audios s1), calls s1 @ [Pending], Suc (stopSignals s1), console s1 @ l)"
    and q: "synthQueue (playTextToSpeech t ac sp 1 ?y) = []"
    and sf: "synthFails (playTextToSpeech t ac sp 1 ?y) = synthFails ?y"
    and sch: "ttsScheduled (length (calls s1)) t ac sp 1 ?y (playTextToSpeech t ac sp 1 ?y)"
    using A by simp_all
  from w have same: "voicesNow ?y = voicesNow s" "microtasks ?y = microtasks s"
    "waiters ?y = waiters s" "now ?y = now s"
    and sf': "synthFails ?y = synthFails s"
    by (simp_all add: awaitingAt_def)
  have sch': "ttsScheduled (length (calls s1)) t ac sp 1 s (playTextToSpeech t ac sp 1 ?y)"
    using sch by (simp only: ttsScheduled_def same)
  have cs: "modify c (\<lambda>p. if p = Pending then Resolved else p) (calls s1 @ [Pending]) =
            (calls s1)[c := Resolved] @ [Pending]"
    using c by (simp add: modify_def nth_append list_update_append)
  have o': "obs (resolveCall c (playTextToSpeech t ac sp 1 ?y)) =
           (map src (audios s1), (calls s1)[c := Resolved] @ [Pending], Suc (stopSignals s1),
            console s1 @ l)"
    using o by (simp add: obs_def resolveCall_def cs)
  have sch'': "ttsScheduled (length (calls s1)) t ac sp 1 s (resolveCall c (playTextToSpeech t ac sp 1 ?y))"
    using sch' by (simp add: ttsScheduled_def)
  have sf'': "synthFails (resolveCall c (playTextToSpeech t ac sp 1 ?y)) = synthFails s"
    using sf sf' by (simp add: resolveCall_def)
  show ?thesis using o' q sch'' sf'' by (simp add: af r)
qed

lemma after_explicit:
  assumes w: "awaitingAt s s1 a (ExplicitAwait c t ac sp)"
    and e: "e = AudioError a \<or> e = PlayRejected a"
  shows "obs (after e s1) =
           (map src (audios s1) @ [dictUrl t ac], calls s1, Suc (stopSignals s1),
            console s1 @ [Warn ''Explicit URL failed'']) \<and>
         noTts s (after e s1) \<and>
         awaitingAt s (after e s1) (Suc a) (GenericAwait c t ac sp)"
proof -
  from e have e3: "e = AudioEnded a \<or> e = AudioError a \<or> e = PlayRejected a"
    and ne: "(e = AudioEnded a) = False" by auto
  from after_form[OF e3 w] obtain A where A: "map src A = map src (audios s1)"
    and af: "after e s1 =
               runTask (AudioSettled (ExplicitAwait c t ac sp) False)
                 (s1\<lparr>audios := A, currentAudio := None, microtasks := []\<rparr>)"
    by (auto simp: ne)
  let ?y = "s1\<lparr>audios := A, currentAudio := None, microtasks := [],
               console := console s1 @ [Warn ''Explicit URL failed'']\<rparr>"
  have r: "after e s1 = playUrl (dictUrl t ac) sp (Some (GenericAwait c t ac sp)) ?y"
    by (simp add: af sentenceGeneric_def)
  from playUrl_form[of ?y "dictUrl t ac" sp "Some (GenericAwait c t ac sp)"]
  obtain B where B: "map src B = map src (audios ?y)"
    and pf: "playUrl (dictUrl t ac) sp (Some (GenericAwait c t ac sp)) ?y =
       ?y\<lparr>synthQueue := [], audios := B @ [started (dictUrl t ac) sp (Some (GenericAwait c t ac sp))],
          currentAudio := Some (length (audios ?y)), stopSignals := Suc (stopSignals ?y)\<rparr>"
    by blast
  have ay: "audios ?y = A" by simp
  from B have "length B = length (audios ?y)" by (metis length_map)
  moreover from A have lA: "length A = length (audios s1)" by (metis length_map)
  ultimately have lB: "length B = length (audios s1)" by (simp only: ay)
  from B A have sB: "map src B = map src (audios s1)" by (simp only: ay)
  from w have l1: "length (audios s1) = Suc a" and rest: "microtasks s = []" "waiters s1 = waiters s"
    "voicesNow s1 = voicesNow s" "now s1 = now s" "synthFails s1 = synthFails s"
    by (simp_all add: awaitingAt_def)
  show ?thesis using sB lB lA l1 rest
    by (simp add: r pf obs_def noTts_def awaitingAt_def started_def nth_append)
qed

text \<open>A call that reaches its first \<open>await\<close> of \<open>playUrl\<close>.\<close>

lemma start_await:
  fixes s :: state and u :: string and sp :: rat and k :: cont
  assumes m: "microtasks s = []"
  defines "s1 \<equiv> playUrl u sp (Some k) (s\<lparr>calls := calls s @ [Pending]\<rparr>)"
  shows "obs s1 = (map src (audios s) @ [u], calls s @ [Pending], Suc (stopSignals s), console s) \<and>
         noTts s s1 \<and> awaitingAt s s1 (length (audios s)) k"
proof -
  let ?s0 = "s\<lparr>calls := calls s @ [Pending]\<rparr>"
  from playUrl_form[of ?s0 u sp "Some k"]
  obtain B where B: "map src B = map src (audios ?s0)"
    and pf: "s1 = ?s0\<lparr>synthQueue := [], audios := B @ [started u sp (Some k)],
          currentAudio := Some (length (audios ?s0)), stopSignals := Suc (stopSignals ?s0)\<rparr>"
    unfolding s1_def by blast
  have a0: "audios ?s0 = audios s" by simp
  from B have sB: "map src B = map src (audios s)" by (simp only: a0)
  then have lB: "length B = length (audios s)" by (metis length_map)
  show ?thesis using sB lB m
    by (simp add: pf obs_def noTts_def awaitingAt_def started_def nth_append)
qed

lemma playWordAudio_start:
  "t \<noteq> [] \<Longrightarrow> playWordAudio t ac sp s =
     playUrl (dictUrl t ac) sp (Some (WordAwait (length (calls s)) t ac sp))
       (s\<lparr>calls := calls s @ [Pending]\<rparr>)"
  by (simp add: playWordAudio_def Let_def)

lemma playSentenceAudio_explicit:
  "u \<noteq> [] \<Longrightarrow> playSentenceAudio t (Some u) ac sp s =
     playUrl u sp (Some (ExplicitAwait (length (calls s)) t ac sp))
       (s\<lparr>calls := calls s @ [Pending]\<rparr>)"
  by (simp add: playSentenceAudio_def Let_def)

lemma playSentenceAudio_generic:
  "playSentenceAudio t None ac sp s =
     playUrl (dictUrl t ac) sp (Some (GenericAwait (length (calls s)) t ac sp))
       (s\<lparr>calls := calls s @ [Pending]\<rparr>)"
  by (simp add: playSentenceAudio_def sentenceGeneric_def Let_def)

text \<open>The queued continuation of \<open>playTextToSpeech\<close> with one repeat queues one utterance.\<close>

lemma tts_runs:
  assumes sch: "ttsScheduled c t ac sp 1 s x" and m: "microtasks s = []"
    and v: "voicesNow s \<noteq> []" and f: "\<not> synthFails x" and q: "synthQueue x = []"
  shows "synthQueue (step Microtask x) = [mkUtterance t ac sp (targetVoice (voicesNow s) ac)]"
proof -
  from sch m v have mt: "microtasks x = [VoicesReady c t ac sp 1 (voicesNow s)]"
    by (simp add: ttsScheduled_def)
  have f': "\<not> synthFails (x\<lparr>microtasks := []\<rparr>)" using f by simp
  have sl: "speakLoop (nat 1) t ac sp (targetVoice (voicesNow s) ac) (x\<lparr>microtasks := []\<rparr>) =
      Inr ((x\<lparr>microtasks := []\<rparr>)\<lparr>synthQueue := synthQueue (x\<lparr>microtasks := []\<rparr>) @
              replicate (nat 1) (mkUtterance t ac sp (targetVoice (voicesNow s) ac))\<rparr>)"
    by (rule speakLoop_queue[OF f'])
  have "step Microtask x = speakResume c t ac sp 1 (voicesNow s) (x\<lparr>microtasks := []\<rparr>)"
    by (simp add: step_Microtask mt)
  then show ?thesis using q
    by (simp only: speakResume_alt sl) (simp add: resolveCall_def)
qed

text \<open>A settled promise queues nothing when a further event of its element arrives.\<close>

lemma settle_noop: "promise (audios y ! x) \<noteq> Pending \<Longrightarrow> settle x ok y = y"
  by (simp add: settle_def)

lemma settled_once:
  assumes p: "promiseIs x p v" and np: "p \<noteq> Pending"
    and e: "e = AudioEnded x \<or> e = AudioError x \<or> e = PlayRejected x"
  shows "microtasks (step e v) = microtasks v"
proof -
  from p np have pe: "promise (audios v ! x) \<noteq> Pending" by (simp add: promiseIs_def)
  have 1: "settle x ok (clearIfCurrent x y) = clearIfCurrent x y"
    if "promise (audios y ! x) \<noteq> Pending" for ok y
    by (rule settle_noop) (simp add: that)
  from e consider "e = AudioEnded x" | "e = AudioError x" | "e = PlayRejected x" by blast
  then show ?thesis
  proof cases
    case 1
    have "promise (audios (setPlayPending x False (setStatus x Ended v)) ! x) \<noteq> Pending"
      using pe by simp
    from settle_noop[of "clearIfCurrent x (setPlayPending x False (setStatus x Ended v))" x True] this
    show ?thesis by (simp add: 1 step_def onended_def setStatus_def setPlayPending_def)
  next
    case 2
    have "promise (audios (setStatus x Errored v) ! x) \<noteq> Pending" using pe by simp
    from settle_noop[of "clearIfCurrent x (setStatus x Errored v)" x False] this
    show ?thesis by (simp add: 2 step_def onerror_def setStatus_def)
  next
    case 3
    have "promise (audios (setPlayPending x False (v\<lparr>audios := modify x pause (audios v)\<rparr>)) ! x) \<noteq> Pending"
      using pe by simp
    from settle_noop[of "clearIfCurrent x (setPlayPending x False (v\<lparr>audios := modify x pause (audios v)\<rparr>))" x False] this
    show ?thesis by (simp add: 3 step_def playCatch_def setPlayPending_def)
  qed
qed

subsection \<open>The promises of the async functions\<close>

lemma calls_updateVoices [simp]: "calls (updateVoices s) = calls s"
  by (simp add: updateVoices_def Let_def)

lemma set_resolve: "Rejected \<notin> set cs \<Longrightarrow>
   Rejected \<notin> set (modify c (\<lambda>p. if p = Pending then Resolved else p) cs)"
  by (auto simp: modify_def dest!: subsetD[OF set_update_subset_insert] split: if_splits)

lemma calls_speakResume:
  "calls (speakResume c t a r n vs s) =
     modify c (\<lambda>p. if p = Pending then Resolved else p) (calls s)"
  using speakLoop_frame[of "nat n" t a r "targetVoice vs a" s]
  by (cases "speakLoop (nat n) t a r (targetVoice vs a) s")
     (auto simp: speakResume_alt stateOf_def resolveCall_def)

lemma noReject_core: "stableCore noReject"
  unfolding stableCore_def preserves_def noReject_def
  by (simp add: calls_speakResume set_resolve resolveCall_def)

lemma noReject_env: "stableEnv noReject"
  unfolding stableEnv_def preserves_def noReject_def by simp

lemma noReject_at: "stableAt noReject a"
  unfolding stableAt_def preserves_def noReject_def by simp

lemma noReject_run: "noReject s \<Longrightarrow> noReject (run es s)"
  by (rule preserves_run[OF noReject_core noReject_at noReject_env])

text \<open>A synthesiser that raises: the \<open>catch\<close> logs, nothing is queued, the call resolves.\<close>

lemma speakResume_fails:
  assumes "synthFails s" and "0 < n"
  shows "console (speakResume c t a r n vs s) = console s @ [Error ''TTS Error''] \<and>
         synthQueue (speakResume c t a r n vs s) = synthQueue s"
proof -
  from assms(2) have "0 < nat n" by simp
  from speakLoop_fails[OF assms(1) this, of t a r "targetVoice vs a"]
  show ?thesis by (simp add: speakResume_alt resolveCall_def)
qed

lemma calls_playTextToSpeech:
  "calls (playTextToSpeech t ac r n y) = calls y @ [if t = [] \<or> n \<le> 0 then Resolved else Pending]"
proof (cases "t = [] \<or> n \<le> 0")
  case True
  then show ?thesis by (auto simp: playTextToSpeech_def Let_def new_call_resolved)
next
  case False
  then have "t \<noteq> []" "0 < n" by auto
  from tts_effect[OF this, of ac r y] False show ?thesis by (simp add: obs_def)
qed

text \<open>
  Whatever the awaited element does, the microtask after it resolves the promise of a
  suspended \<open>playWordAudio\<close>, or of a \<open>playSentenceAudio\<close> suspended at the lookup URL.
\<close>

lemma resolved_at:
  assumes "c < length cs" and "cs ! c = Pending" and "calls y = cs @ l"
  shows "calls (resolveCall c y) ! c = Resolved"
  using assms by (simp add: resolveCall_def modify_def nth_append)

lemma after_resolves:
  assumes w: "awaitingAt s s1 a k" and c: "c < length (calls s1)" "calls s1 ! c = Pending"
    and e: "e = AudioEnded a \<or> e = AudioError a \<or> e = PlayRejected a"
    and k: "k = WordAwait c t ac sp \<or> k = GenericAwait c t ac sp"
  shows "calls (after e s1) ! c = Resolved"
proof -
  from after_form[OF e w] obtain A where
    af: "after e s1 = runTask (AudioSettled k (e = AudioEnded a))
               (s1\<lparr>audios := A, currentAudio := None, microtasks := []\<rparr>)"
    by blast
  define x where "x = s1\<lparr>audios := A, currentAudio := None, microtasks := []\<rparr>"
  have cx: "calls x = calls s1" by (simp add: x_def)
  have afx: "after e s1 = runTask (AudioSettled k (e = AudioEnded a)) x"
    by (simp only: af x_def)
  show ?thesis
  proof (cases "e = AudioEnded a")
    case True
    have "runTask (AudioSettled k True) x = resolveCall c x"
      using k by (auto simp: asyncFinish_def)
    moreover have "after e s1 = runTask (AudioSettled k True) x" using afx True by simp
    ultimately have "after e s1 = resolveCall c x" by simp
    moreover have "calls (resolveCall c x) ! c = Resolved"
      by (rule resolved_at[OF c, of x "[]"]) (simp add: cx)
    ultimately show ?thesis by simp
  next
    case False
    from k show ?thesis
    proof
      assume k1: "k = WordAwait c t ac sp"
      define y where "y = playTextToSpeech t ac sp 1
                  (x\<lparr>console := console x @
                     [Warn (''Online audio failed for '' @ t @ '', falling back to TTS'')]\<rparr>)"
      have cy: "calls y = calls s1 @ [if t = [] \<or> (1::int) \<le> 0 then Resolved else Pending]"
        by (simp add: y_def calls_playTextToSpeech cx)
      have "runTask (AudioSettled k False) x = resolveCall c y"
        by (simp add: k1 asyncFinish_def y_def)
      moreover have "after e s1 = runTask (AudioSettled k False) x" using afx False by simp
      ultimately have "after e s1 = resolveCall c y" by simp
      moreover have "calls (resolveCall c y) ! c = Resolved"
        by (rule resolved_at[OF c cy])
      ultimately show ?thesis by simp
    next
      assume k2: "k = GenericAwait c t ac sp"
      define y where "y = playTextToSpeech t ac sp 1 x"
      have cy: "calls y = calls s1 @ [if t = [] \<or> (1::int) \<le> 0 then Resolved else Pending]"
        by (simp add: y_def calls_playTextToSpeech cx)
      have "runTask (AudioSettled k False) x = resolveCall c y"
        by (simp add: k2 asyncFinish_def y_def)
      moreover have "after e s1 = runTask (AudioSettled k False) x" using afx False by simp
      ultimately have "after e s1 = resolveCall c y" by simp
      moreover have "calls (resolveCall c y) ! c = Resolved"
        by (rule resolved_at[OF c cy])
      ultimately show ?thesis by simp
    qed
  qed
qed

section \<open>The claims\<close>

text \<open>
  C1. In every state reached from the initial state by any sequence of calls and platform
  events, at most one audio element plays. A call that starts a playback
  (\<open>playUrl\<close>, \<open>playTextToSpeech\<close> past its guard, \<open>playWordAudio\<close> past its guard,
  \<open>playSentenceAudio\<close>) runs \<open>stopAudio\<close> once: the element tracked before does not
  play afterwards and its position is reset to 0. Where the call creates an element, that
  element is registered as the handle, plays, and is the only one that plays.
\<close>

theorem one_playing_element:
  assumes "s = run es (init pv hov sf)"
  shows "(playing s a \<and> playing s b \<longrightarrow> a = b) \<and>
         (startsPlayback e \<and> currentAudio s = Some c \<longrightarrow>
            c < length (audios (step e s)) \<and> \<not> playing (step e s) c \<and>
            currentTime (audios (step e s) ! c) = 0 \<and>
            stopSignals (step e s) = Suc (stopSignals s)) \<and>
         (createsAudio e \<longrightarrow>
            currentAudio (step e s) = Some (length (audios s)) \<and>
            playing (step e s) (length (audios s)) \<and>
            (\<forall>d. playing (step e s) d \<longrightarrow> d = length (audios s)))"
proof -
  have inv: "tracked s \<and> handleOk s"
    using safe_run[of "init pv hov sf" es] safe_init[of pv hov sf] assms by simp
  then have inv': "tracked (step e s) \<and> handleOk (step e s)"
    using safe_step[of s e] by simp
  have one: "a = b" if "playing s a" and "playing s b"
  proof -
    from that inv have "currentAudio s = Some a" and "currentAudio s = Some b"
      by (simp_all add: playing_def tracked_def)
    then show ?thesis by simp
  qed
  have old: "c < length (audios (step e s)) \<and> \<not> playing (step e s) c \<and>
            currentTime (audios (step e s) ! c) = 0 \<and>
            stopSignals (step e s) = Suc (stopSignals s)"
    if st: "startsPlayback e" and cur: "currentAudio s = Some c"
  proof -
    from inv cur have c: "c < length (audios s)" by (simp add: handleOk_def)
    have tk: "take (length (audios s)) (audios (step e s)) = audios (stopAudio s)"
      and sig: "stopSignals (step e s) = Suc (stopSignals s)"
      using start_effect[OF st, of s] by simp_all
    have "length (take (length (audios s)) (audios (step e s))) = length (audios s)"
      by (simp only: tk stopAudio_length)
    then have len: "length (audios s) \<le> length (audios (step e s))" by simp
    have "audios (step e s) ! c = take (length (audios s)) (audios (step e s)) ! c"
      using c by simp
    also have "\<dots> = (pause (audios s ! c))\<lparr>currentTime := 0\<rparr>"
      using stopAudio_element[OF cur c] by (simp only: tk)
    finally have el: "audios (step e s) ! c = (pause (audios s ! c))\<lparr>currentTime := 0\<rparr>" .
    show ?thesis using c len sig by (simp add: el playing_def pause_def)
  qed
  have new: "currentAudio (step e s) = Some (length (audios s)) \<and>
            playing (step e s) (length (audios s)) \<and>
            (\<forall>d. playing (step e s) d \<longrightarrow> d = length (audios s))"
    if cr: "createsAudio e"
  proof -
    have st: "startsPlayback e" using cr
      by (cases e) (simp_all add: createsAudio_def startsPlayback_def)
    have cur: "currentAudio (step e s) = Some (length (audios s))"
      and pl: "playing (step e s) (length (audios s))"
      using start_effect[OF st, of s] cr by simp_all
    have "d = length (audios s)" if "playing (step e s) d" for d
    proof -
      from that inv' have "currentAudio (step e s) = Some d"
        by (simp add: playing_def tracked_def)
      with cur show ?thesis by simp
    qed
    then show ?thesis using cur pl by blast
  qed
  show ?thesis using one old new by blast
qed

theorem one_playing_element_witness:
  "playing (run [CallPlayUrl ''a'' 1] (init [] True False)) 0 \<and>
   startsPlayback (CallPlayUrl ''b'' 2) \<and> createsAudio (CallPlayUrl ''b'' 2) \<and>
   currentAudio (run [CallPlayUrl ''a'' 1] (init [] True False)) = Some 0 \<and>
   \<not> playing (step (CallPlayUrl ''b'' 2) (run [CallPlayUrl ''a'' 1] (init [] True False))) 0 \<and>
   currentTime (audios (step (CallPlayUrl ''b'' 2) (run [CallPlayUrl ''a'' 1] (init [] True False))) ! 0) = 0 \<and>
   playing (step (CallPlayUrl ''b'' 2) (run [CallPlayUrl ''a'' 1] (init [] True False))) 1"
proof -
  let ?s = "run [CallPlayUrl ''a'' 1] (init [] True False)"
  have h: "playing ?s 0" "currentAudio ?s = Some 0" "length (audios ?s) = 1"
    "startsPlayback (CallPlayUrl ''b'' 2)" "createsAudio (CallPlayUrl ''b'' 2)"
    by (simp_all add: run_def step_def init_def playUrl_def stopAudio_def Let_def modify_def
        newAudio_def playing_def startsPlayback_def createsAudio_def)
  show ?thesis
    using h one_playing_element[OF refl, where es = "[CallPlayUrl ''a'' 1]" and pv = "[]"
        and hov = True and sf = False and a = 0 and b = 0 and e = "CallPlayUrl ''b'' 2" and c = 0]
    by simp
qed

text \<open>
  C9. Once the cached voice list is non-empty it stays non-empty in every later state,
  whatever calls and platform events follow. The two callbacks that refresh the cache
  (\<open>updateVoices\<close>, installed by \<open>preloadVoices\<close>, and the listener of
  \<open>waitForVoices\<close>) overwrite it only with a non-empty platform list.
\<close>

theorem voices_stay_loaded:
  "(cachedVoices (run es1 s) \<noteq> [] \<longrightarrow> cachedVoices (run (es1 @ es2) s) \<noteq> []) \<and>
   cachedVoices (updateVoices s) = (if platformVoices s \<noteq> [] then platformVoices s else cachedVoices s) \<and>
   cachedVoices (handler w s) = (if platformVoices s \<noteq> [] then platformVoices s else cachedVoices s)"
proof -
  have "cachedVoices (run es2 (run es1 s)) \<noteq> []" if "cachedVoices (run es1 s) \<noteq> []"
    using preserves_run[of "\<lambda>s. cachedVoices s \<noteq> []", OF loaded_core loaded_at loaded_env that] .
  then show ?thesis
    by (simp add: run_def updateVoices_def handler_def Let_def)
qed

theorem voices_stay_loaded_witness:
  "cachedVoices (run [CallPreloadVoices] (init [\<lparr>vname = ''v'', vlang = ''en-US''\<rparr>] True False)) \<noteq> [] \<and>
   cachedVoices (run ([CallPreloadVoices] @ [VoicesChanged [], CallPlayTextToSpeech ''a'' US 1 1])
      (init [\<lparr>vname = ''v'', vlang = ''en-US''\<rparr>] True False)) \<noteq> []"
proof -
  have h: "cachedVoices (run [CallPreloadVoices] (init [\<lparr>vname = ''v'', vlang = ''en-US''\<rparr>] True False)) \<noteq> []"
    by (simp add: run_def step_def init_def preloadVoices_def updateVoices_def Let_def)
  show ?thesis
    using h voices_stay_loaded[of "[CallPreloadVoices]" "init [\<lparr>vname = ''v'', vlang = ''en-US''\<rparr>] True False"
        "[VoicesChanged [], CallPlayTextToSpeech ''a'' US 1 1]"]
    by blast
qed

text \<open>
  C2. After \<open>stopAudio\<close>, from any state, the handle is empty, the synthesiser's queue is
  empty and one more stop signal has been dispatched; the element that was tracked is
  paused and reset. Where nothing is playing (no handle, no queued utterance) the call
  changes nothing but the count of dispatched stop signals, and a second call after a
  first changes nothing but that count.
\<close>

theorem stopAudio_clears:
  "currentAudio (stopAudio s) = None \<and> synthQueue (stopAudio s) = [] \<and>
   stopSignals (stopAudio s) = Suc (stopSignals s) \<and>
   (currentAudio s = Some a \<and> a < length (audios s) \<longrightarrow>
      audios (stopAudio s) ! a = (pause (audios s ! a))\<lparr>currentTime := 0\<rparr>) \<and>
   (currentAudio s = None \<and> synthQueue s = [] \<longrightarrow>
      stopAudio s = s\<lparr>stopSignals := Suc (stopSignals s)\<rparr>) \<and>
   stopAudio (stopAudio s) = (stopAudio s)\<lparr>stopSignals := Suc (Suc (stopSignals s))\<rparr>"
proof -
  have idle: "stopAudio x = x\<lparr>stopSignals := Suc (stopSignals x)\<rparr>"
    if "currentAudio x = None" and "synthQueue x = []" for x
    using that by (simp add: stopAudio_def Let_def)
  have "stopAudio (stopAudio s) = (stopAudio s)\<lparr>stopSignals := Suc (stopSignals (stopAudio s))\<rparr>"
    by (rule idle) simp_all
  then show ?thesis using idle[of s] stopAudio_element[of s a] by simp
qed

theorem stopAudio_clears_witness:
  "currentAudio (init [] True False) = None \<and> synthQueue (init [] True False) = [] \<and>
   stopAudio (init [] True False) = (init [] True False)\<lparr>stopSignals := 1\<rparr> \<and>
   currentAudio (playUrl ''u'' 1 None (init [] True False)) = Some 0 \<and>
   0 < length (audios (playUrl ''u'' 1 None (init [] True False))) \<and>
   pstatus (audios (stopAudio (playUrl ''u'' 1 None (init [] True False))) ! 0) = Paused"
proof -
  have h: "currentAudio (init [] True False) = None" "synthQueue (init [] True False) = []"
    "stopSignals (init [] True False) = 0"
    "currentAudio (playUrl ''u'' 1 None (init [] True False)) = Some 0"
    "0 < length (audios (playUrl ''u'' 1 None (init [] True False)))"
    "pstatus (audios (playUrl ''u'' 1 None (init [] True False)) ! 0) = Playing"
    by (simp_all add: init_def playUrl_audios stopAudio_def)
  show ?thesis
    using h stopAudio_clears[of "init [] True False" 0]
      stopAudio_clears[of "playUrl ''u'' 1 None (init [] True False)" 0]
    by (simp add: pause_def)
qed

text \<open>
  C10. \<open>playWordAudio\<close> with the empty text only returns a resolved promise: nothing else
  of the state changes. \<open>playSentenceAudio\<close> has no such guard: with the empty text and no
  explicit URL (absent or empty) it runs \<open>stopAudio\<close> and starts an element on the lookup
  URL built from the empty string.
\<close>

theorem empty_text_guard:
  "playWordAudio [] ac speed s = s\<lparr>calls := calls s @ [Resolved]\<rparr> \<and>
   playSentenceAudio [] (Some []) ac speed s = playSentenceAudio [] None ac speed s \<and>
   stopSignals (playSentenceAudio [] None ac speed s) = Suc (stopSignals s) \<and>
   synthQueue (playSentenceAudio [] None ac speed s) = [] \<and>
   currentAudio (playSentenceAudio [] None ac speed s) = Some (length (audios s)) \<and>
   audios (playSentenceAudio [] None ac speed s) =
     audios (stopAudio s) @
       [\<lparr>src = ''https://dict.youdao.com/dictvoice?audio=&type='' @ (if ac = UK then ''1'' else ''2''),
         playbackRate = speed, currentTime = 0, pstatus = Playing, playPending = True,
         promise = Pending, awaiter = Some (GenericAwait (length (calls s)) [] ac speed)\<rparr>]"
  by (simp add: playWordAudio_def new_call_resolved playSentenceAudio_def sentenceGeneric_def
      playUrl_audios stopAudio_calls dictUrl_def encodeURIComponent_def)



text \<open>
  C5. \<open>playTextToSpeech\<close> with an empty text or a repeat count of 0 or less only returns a
  resolved promise. Otherwise it runs \<open>stopAudio\<close> first; once the voices are there, and
  provided the synthesiser accepts utterances, it appends exactly \<open>repeat\<close> copies of one
  utterance to the queue, in order, each with rate \<open>max 0.1 (min 10 rate)\<close>; a rate of
  0.05 becomes 0.1. With voices available at the call the utterances are queued by the
  next microtask; on a platform without voices and with no earlier waiter, after the
  2000 ms timer.
\<close>

theorem speak_queues:
  "(t = [] \<or> n \<le> 0 \<longrightarrow> playTextToSpeech t ac r n s = s\<lparr>calls := calls s @ [Resolved]\<rparr>) \<and>
   (t \<noteq> [] \<and> 0 < n \<longrightarrow>
      stopSignals (playTextToSpeech t ac r n s) = Suc (stopSignals s) \<and>
      currentAudio (playTextToSpeech t ac r n s) = None \<and>
      synthQueue (playTextToSpeech t ac r n s) = [] \<and>
      audios (playTextToSpeech t ac r n s) = audios (stopAudio s)) \<and>
   (t \<noteq> [] \<and> 0 < n \<and> microtasks s = [] \<and> \<not> synthFails s \<and> voicesNow s \<noteq> [] \<longrightarrow>
      synthQueue (step Microtask (playTextToSpeech t ac r n s)) =
        replicate (nat n) (mkUtterance t ac r (targetVoice (voicesNow s) ac))) \<and>
   (t \<noteq> [] \<and> 0 < n \<and> microtasks s = [] \<and> \<not> synthFails s \<and> voicesNow s = [] \<and> waiters s = [] \<longrightarrow>
      synthQueue (step Microtask (step (Advance 2000) (playTextToSpeech t ac r n s))) =
        replicate (nat n) (mkUtterance t ac r None)) \<and>
   (\<not> synthFails s \<longrightarrow>
      synthQueue (speakResume c t ac r n voices s) =
        synthQueue s @ replicate (nat n) (mkUtterance t ac r (targetVoice voices ac))) \<and>
   urate (mkUtterance t ac r tv) = max (1 / 10) (min 10 r) \<and>
   urate (mkUtterance t ac (1 / 20) tv) = 1 / 10"
proof -
  let ?p = "(stopAudio s)\<lparr>calls := calls s @ [Pending], synthPaused := False\<rparr>"
  have guard: "playTextToSpeech t ac r n s = s\<lparr>calls := calls s @ [Resolved]\<rparr>" if "t = [] \<or> n \<le> 0"
    using that by (auto simp: playTextToSpeech_def Let_def new_call_resolved)
  have first: "stopSignals (playTextToSpeech t ac r n s) = Suc (stopSignals s) \<and>
      currentAudio (playTextToSpeech t ac r n s) = None \<and>
      synthQueue (playTextToSpeech t ac r n s) = [] \<and>
      audios (playTextToSpeech t ac r n s) = audios (stopAudio s)"
    if "t \<noteq> []" and "0 < n"
    by (simp add: playTextToSpeech_unfold[OF that])
  have resume: "synthQueue (speakResume c t ac r n vs x) =
        synthQueue x @ replicate (nat n) (mkUtterance t ac r (targetVoice vs ac))"
    if "\<not> synthFails x" for c vs x
    using that by (simp add: speakResume_alt speakLoop_queue resolveCall_def)
  have ready: "synthQueue (step Microtask (playTextToSpeech t ac r n s)) =
        replicate (nat n) (mkUtterance t ac r (targetVoice (voicesNow s) ac))"
    if "t \<noteq> []" and "0 < n" and m: "microtasks s = []" and f: "\<not> synthFails s" and v: "voicesNow s \<noteq> []"
  proof -
    have v': "voicesNow ?p \<noteq> []" using v by simp
    let ?w = "waitForVoices (length (calls s)) t ac r n ?p"
    have mt: "microtasks ?w = [VoicesReady (length (calls s)) t ac r n (voicesNow s)]"
      using waitForVoices_ready[OF v', of "length (calls s)" t ac r n] m by simp
    have "synthQueue (speakResume (length (calls s)) t ac r n (voicesNow s) (?w\<lparr>microtasks := []\<rparr>)) =
        synthQueue (?w\<lparr>microtasks := []\<rparr>) @ replicate (nat n) (mkUtterance t ac r (targetVoice (voicesNow s) ac))"
      by (rule resume) (simp add: f)
    then show ?thesis
      by (simp add: playTextToSpeech_unfold[OF that(1,2)] step_def mt)
  qed
  have late: "synthQueue (step Microtask (step (Advance 2000) (playTextToSpeech t ac r n s))) =
        replicate (nat n) (mkUtterance t ac r None)"
    if "t \<noteq> []" and "0 < n" and m: "microtasks s = []" and f: "\<not> synthFails s"
      and v: "voicesNow s = []" and w: "waiters s = []"
  proof -
    have v': "voicesNow ?p = []" using v by simp
    have pv: "platformVoices s = []" using v by (simp add: voicesNow_def split: if_splits)
    let ?w = "waitForVoices (length (calls s)) t ac r n ?p"
    let ?a = "step (Advance 2000) ?w"
    have a: "microtasks ?a = [VoicesReady (length (calls s)) t ac r n []] \<and>
             synthQueue ?a = [] \<and> \<not> synthFails ?a"
      using m f w pv
      by (simp add: waitForVoices_suspend[OF v'] step_def dueTimers_def timeout_def Let_def
          modify_def resolveWaiter_def)
    have "synthQueue (speakResume (length (calls s)) t ac r n [] (?a\<lparr>microtasks := []\<rparr>)) =
        synthQueue (?a\<lparr>microtasks := []\<rparr>) @ replicate (nat n) (mkUtterance t ac r (targetVoice [] ac))"
      by (rule resume) (simp add: a)
    then have "synthQueue (step Microtask ?a) = replicate (nat n) (mkUtterance t ac r None)"
      using a by (simp add: step_def targetVoice_def)
    then show ?thesis by (simp add: playTextToSpeech_unfold[OF that(1,2)])
  qed
  have rate: "urate (mkUtterance t ac q tv) = max (1 / 10) (min 10 q)" for q
    by (cases tv) (simp_all add: mkUtterance_def safeRate_def)
  show ?thesis using guard first ready late resume[of s c voices] rate[of r] rate[of "1 / 20"]
    by simp
qed

theorem speak_queues_witness:
  "''hi'' \<noteq> [] \<and> (0::int) < 2 \<and>
   microtasks (init [\<lparr>vname = ''us'', vlang = ''en-US''\<rparr>] True False) = [] \<and>
   \<not> synthFails (init [\<lparr>vname = ''us'', vlang = ''en-US''\<rparr>] True False) \<and>
   voicesNow (init [\<lparr>vname = ''us'', vlang = ''en-US''\<rparr>] True False) \<noteq> [] \<and>
   map urate (synthQueue (step Microtask
      (playTextToSpeech ''hi'' UK (1 / 20) 2 (init [\<lparr>vname = ''us'', vlang = ''en-US''\<rparr>] True False)))) =
     [1 / 10, 1 / 10] \<and>
   playTextToSpeech [] UK 1 2 (init [] True False) = (init [] True False)\<lparr>calls := [Resolved]\<rparr> \<and>
   voicesNow (init [] True False) = [] \<and> waiters (init [] True False) = [] \<and>
   map ulang (synthQueue (step Microtask (step (Advance 2000)
      (playTextToSpeech ''hi'' UK 1 2 (init [] True False))))) = [''en-GB'', ''en-GB'']"
proof -
  let ?s = "init [\<lparr>vname = ''us'', vlang = ''en-US''\<rparr>] True False"
  have h: "microtasks ?s = []" "\<not> synthFails ?s" "voicesNow ?s \<noteq> []"
    "calls (init [] True False) = []" "microtasks (init [] True False) = []"
    "\<not> synthFails (init [] True False)"
    "voicesNow (init [] True False) = []" "waiters (init [] True False) = []"
    by (simp_all add: init_def voicesNow_def)
  have r: "urate (mkUtterance ''hi'' UK (1 / 20) tv) = 1 / 10" for tv
    by (cases tv) (simp_all add: mkUtterance_def safeRate_def)
  show ?thesis
    using h speak_queues[of "''hi''" 2 UK "1 / 20" ?s]
      speak_queues[of "[]" 2 UK 1 "init [] True False"]
      speak_queues[of "''hi''" 2 UK 1 "init [] True False"]
    by (simp add: numeral_2_eq_2 r mkUtterance_def langTag_def)
qed

text \<open>
  C7, as the claim states it, fails: with an empty cache and a platform whose voice list
  is already there, \<open>waitForVoices\<close> does not suspend. No waiter is recorded, and
  \<open>playTextToSpeech\<close> has queued its utterance after one microtask, with no
  \<open>voiceschanged\<close> event and no time passed.
\<close>

theorem waitForVoices_counterexample:
  "\<not> (isLoaded (init [\<lparr>vname = ''us'', vlang = ''en-US''\<rparr>] True False) \<and>
      cachedVoices (init [\<lparr>vname = ''us'', vlang = ''en-US''\<rparr>] True False) \<noteq> []) \<and>
   waiters (waitForVoices 0 ''hi'' US 1 1 (init [\<lparr>vname = ''us'', vlang = ''en-US''\<rparr>] True False)) = [] \<and>
   microtasks (waitForVoices 0 ''hi'' US 1 1 (init [\<lparr>vname = ''us'', vlang = ''en-US''\<rparr>] True False)) =
     [VoicesReady 0 ''hi'' US 1 1 [\<lparr>vname = ''us'', vlang = ''en-US''\<rparr>]] \<and>
   length (synthQueue (run [CallPlayTextToSpeech ''hi'' US 1 1, Microtask]
      (init [\<lparr>vname = ''us'', vlang = ''en-US''\<rparr>] True False))) = 1 \<and>
   now (run [CallPlayTextToSpeech ''hi'' US 1 1, Microtask]
      (init [\<lparr>vname = ''us'', vlang = ''en-US''\<rparr>] True False)) = 0"
  by (simp add: init_def waitForVoices_def run_def step_def playTextToSpeech_def stopAudio_def
      Let_def speakResume_alt synthSpeak_def resolveCall_def modify_def)

text \<open>
  C7, amended. With a loaded cache \<open>waitForVoices\<close> resolves at once with the cache.
  Without one, and with a platform list that is already non-empty, it caches that list and
  resolves with it at once. Otherwise it suspends: a waiter with a listener and a timer due
  2000 ms later. A suspended waiter is resolved by a \<open>voiceschanged\<close> event with a
  non-empty list, with that list, and by the passing of its deadline, with what the
  platform has then. On a platform without voices it stays suspended through every
  sequence of events in which no \<open>voiceschanged\<close> event brings voices and less time than
  remains to the deadline passes. The promise of a waiter has no rejected state.
\<close>

theorem waitForVoices_resolves:
  "(isLoaded s \<and> cachedVoices s \<noteq> [] \<longrightarrow>
      waitForVoices c t a r n s =
        s\<lparr>microtasks := microtasks s @ [VoicesReady c t a r n (cachedVoices s)]\<rparr>) \<and>
   (\<not> (isLoaded s \<and> cachedVoices s \<noteq> []) \<and> platformVoices s \<noteq> [] \<longrightarrow>
      waitForVoices c t a r n s =
        s\<lparr>cachedVoices := platformVoices s, isLoaded := True,
          microtasks := microtasks s @ [VoicesReady c t a r n (platformVoices s)]\<rparr>) \<and>
   (\<not> (isLoaded s \<and> cachedVoices s \<noteq> []) \<and> platformVoices s = [] \<longrightarrow>
      waitForVoices c t a r n s =
        s\<lparr>waiters := waiters s @
            [\<lparr>wresult = None, wlistening = True, wtimer = Some (now s + 2000),
              wcall = c, wtext = t, waccent = a, wrate = r, wrepeat = n\<rparr>]\<rparr> \<and>
      pendingAt (waitForVoices c t a r n s) (length (waiters s)) (now s + 2000)) \<and>
   (pendingAt x w dl \<and> v \<noteq> [] \<longrightarrow>
      wresult (waiters (step (VoicesChanged v) x) ! w) = Some v \<and>
      taskOf (waiters x ! w) v \<in> set (microtasks (step (VoicesChanged v) x))) \<and>
   (pendingAt x w dl \<and> dl \<le> now x + d \<longrightarrow>
      wresult (waiters (step (Advance d) x) ! w) = Some (platformVoices x) \<and>
      taskOf (waiters x ! w) (platformVoices x) \<in> set (microtasks (step (Advance d) x))) \<and>
   (pendingAt x w dl \<and> platformVoices x = [] \<and> silent es \<and> now x + elapsed es < dl \<longrightarrow>
      pendingAt (run es x) w dl \<and> platformVoices (run es x) = [] \<and>
      now (run es x) = now x + elapsed es)"
proof -
  have 1: "waitForVoices c t a r n s =
        s\<lparr>microtasks := microtasks s @ [VoicesReady c t a r n (cachedVoices s)]\<rparr>"
    if "isLoaded s \<and> cachedVoices s \<noteq> []"
    using that by (simp add: waitForVoices_def)
  have 2: "waitForVoices c t a r n s =
        s\<lparr>cachedVoices := platformVoices s, isLoaded := True,
          microtasks := microtasks s @ [VoicesReady c t a r n (platformVoices s)]\<rparr>"
    if "\<not> (isLoaded s \<and> cachedVoices s \<noteq> [])" and "platformVoices s \<noteq> []"
    using that by (simp add: waitForVoices_def Let_def)
  have 3: "waitForVoices c t a r n s =
        s\<lparr>waiters := waiters s @
            [\<lparr>wresult = None, wlistening = True, wtimer = Some (now s + 2000),
              wcall = c, wtext = t, waccent = a, wrate = r, wrepeat = n\<rparr>]\<rparr> \<and>
      pendingAt (waitForVoices c t a r n s) (length (waiters s)) (now s + 2000)"
    if "\<not> (isLoaded s \<and> cachedVoices s \<noteq> [])" and "platformVoices s = []"
    using that by (simp add: waitForVoices_def Let_def pendingAt_def)
  have 6: "pendingAt (run es x) w dl \<and> platformVoices (run es x) = [] \<and>
      now (run es x) = now x + elapsed es"
    if "pendingAt x w dl" and "platformVoices x = []" and "silent es" and "now x + elapsed es < dl"
  proof -
    have "waitingAt x w dl (now x)" using that by (simp add: waitingAt_def)
    from run_waiting[OF this that(3,4)] show ?thesis by (simp add: waitingAt_def)
  qed
  show ?thesis
    using 1 2 3 6 voicesChanged_resolves[of x w dl v] advance_resolves[of x w dl d]
    by blast
qed

theorem waitForVoices_resolves_witness:
  "pendingAt (waitForVoices 0 ''hi'' US 1 1 (init [] True False)) 0 2000 \<and>
   platformVoices (waitForVoices 0 ''hi'' US 1 1 (init [] True False)) = [] \<and>
   silent [Advance 1999, VoicesChanged [], CallStopAudio] \<and>
   now (waitForVoices 0 ''hi'' US 1 1 (init [] True False)) +
     elapsed [Advance 1999, VoicesChanged [], CallStopAudio] < 2000 \<and>
   pendingAt (run [Advance 1999, VoicesChanged [], CallStopAudio]
     (waitForVoices 0 ''hi'' US 1 1 (init [] True False))) 0 2000 \<and>
   wresult (waiters (step (Advance 2000) (waitForVoices 0 ''hi'' US 1 1 (init [] True False))) ! 0) =
     Some [] \<and>
   wresult (waiters (step (VoicesChanged [\<lparr>vname = ''us'', vlang = ''en-US''\<rparr>])
     (waitForVoices 0 ''hi'' US 1 1 (init [] True False))) ! 0) =
     Some [\<lparr>vname = ''us'', vlang = ''en-US''\<rparr>] \<and>
   waiters (waitForVoices 0 ''hi'' US 1 1 (init [\<lparr>vname = ''us'', vlang = ''en-US''\<rparr>] True False)) = [] \<and>
   isLoaded (preloadVoices (init [\<lparr>vname = ''us'', vlang = ''en-US''\<rparr>] True False)) \<and>
   microtasks (waitForVoices 0 ''hi'' US 1 1
     (preloadVoices (init [\<lparr>vname = ''us'', vlang = ''en-US''\<rparr>] True False))) =
     [VoicesReady 0 ''hi'' US 1 1 [\<lparr>vname = ''us'', vlang = ''en-US''\<rparr>]]"
proof -
  let ?v = "\<lparr>vname = ''us'', vlang = ''en-US''\<rparr>"
  let ?x = "waitForVoices 0 ''hi'' US 1 1 (init [] True False)"
  let ?es = "[Advance 1999, VoicesChanged [], CallStopAudio]"
  let ?l = "preloadVoices (init [?v] True False)"
  have h0: "\<not> (isLoaded (init [] True False) \<and> cachedVoices (init [] True False) \<noteq> [])"
    "platformVoices (init [] True False) = []" "now (init [] True False) = 0"
    "waiters (init [] True False) = []"
    by (simp_all add: init_def)
  have h1: "\<not> (isLoaded (init [?v] True False) \<and> cachedVoices (init [?v] True False) \<noteq> [])"
    "platformVoices (init [?v] True False) = [?v]" "waiters (init [?v] True False) = []"
    by (simp_all add: init_def)
  have h2: "isLoaded ?l" "cachedVoices ?l = [?v]" "microtasks ?l = []"
    by (simp_all add: init_def preloadVoices_def updateVoices_def Let_def)
  have p: "pendingAt ?x 0 2000" "platformVoices ?x = []" "now ?x = 0"
    by (simp_all add: init_def waitForVoices_def Let_def pendingAt_def)
  have e: "silent ?es" "elapsed ?es = 1999" by simp_all
  show ?thesis
    using p e h1 h2
      waitForVoices_resolves[of "init [?v] True False" 0 "''hi''" US 1 1 ?x 0 2000 "[?v]" 2000 ?es]
      waitForVoices_resolves[of ?l 0 "''hi''" US 1 1 ?x 0 2000 "[?v]" 2000 ?es]
    by simp
qed

text \<open>
  C3. \<open>playUrl\<close> runs \<open>stopAudio\<close>, appends a new element with the given URL and rate,
  registers it as the handle and starts it; its promise is pending and each of the three
  settling events can fire. A pending promise becomes resolved by \<open>ended\<close> of its own
  element, rejected by \<open>error\<close> of its element or by the rejection of its \<open>play()\<close>, and
  is left pending by every other event; a settled promise never changes. Each of the
  three events clears the handle exactly when the handle is that element. After
  \<open>playUrl\<close> of A directly followed by \<open>playUrl\<close> of B, any of the three events of A's
  element leaves the handle on B's element.
\<close>

theorem playUrl_promise:
  "stopSignals (playUrl url rate k s) = Suc (stopSignals s) \<and>
   synthQueue (playUrl url rate k s) = [] \<and>
   audios (playUrl url rate k s) =
     audios (stopAudio s) @
       [\<lparr>src = url, playbackRate = rate, currentTime = 0, pstatus = Playing, playPending = True,
         promise = Pending, awaiter = k\<rparr>] \<and>
   currentAudio (playUrl url rate k s) = Some (length (audios s)) \<and>
   promiseIs (length (audios s)) Pending (playUrl url rate k s) \<and>
   fires (AudioEnded (length (audios s))) (playUrl url rate k s) (length (audios s)) \<and>
   fires (AudioError (length (audios s))) (playUrl url rate k s) (length (audios s)) \<and>
   fires (PlayRejected (length (audios s))) (playUrl url rate k s) (length (audios s)) \<and>
   (promiseIs x Pending t \<longrightarrow>
      promiseIs x (if fires e t x then (if e = AudioEnded x then Resolved else Rejected) else Pending)
        (step e t)) \<and>
   (promiseIs x p t \<and> p \<noteq> Pending \<longrightarrow> promiseIs x p (step e t)) \<and>
   (e = AudioEnded x \<or> e = AudioError x \<or> e = PlayRejected x \<longrightarrow>
      currentAudio (step e t) =
        (if fires e t x \<and> currentAudio t = Some x then None else currentAudio t)) \<and>
   (e = AudioEnded (length (audios s)) \<or> e = AudioError (length (audios s)) \<or>
    e = PlayRejected (length (audios s)) \<longrightarrow>
      currentAudio (step e (playUrl urlB rateB kB (playUrl url rate k s))) =
        Some (Suc (length (audios s))))"
proof -
  let ?a = "length (audios s)"
  let ?s1 = "playUrl url rate k s"
  have new: "promiseIs ?a Pending ?s1 \<and> fires (AudioEnded ?a) ?s1 ?a \<and>
             fires (AudioError ?a) ?s1 ?a \<and> fires (PlayRejected ?a) ?s1 ?a"
    by (simp add: promiseIs_def fires_def playUrl_audios nth_append)
  have race: "currentAudio (step e (playUrl urlB rateB kB ?s1)) = Some (Suc ?a)"
    if "e = AudioEnded ?a \<or> e = AudioError ?a \<or> e = PlayRejected ?a"
    using handle_guard[OF that, of "playUrl urlB rateB kB ?s1"] by simp
  show ?thesis
    using new race promise_pending[of x t e] promise_settled[of x p t e] handle_guard[of e x t]
    by (simp add: playUrl_audios)
qed

theorem playUrl_promise_witness:
  "promiseIs 0 Pending (playUrl ''a'' 1 None (init [] True False)) \<and>
   fires (AudioEnded 0) (playUrl ''a'' 1 None (init [] True False)) 0 \<and>
   promiseIs 0 Resolved (step (AudioEnded 0) (playUrl ''a'' 1 None (init [] True False))) \<and>
   (Resolved \<noteq> Pending) \<and>
   promiseIs 0 Resolved
     (step (AudioError 0) (step (AudioEnded 0) (playUrl ''a'' 1 None (init [] True False)))) \<and>
   currentAudio (step (AudioEnded 0) (playUrl ''a'' 1 None (init [] True False))) = None \<and>
   currentAudio (step (AudioError 0)
     (playUrl ''b'' 1 None (playUrl ''a'' 1 None (init [] True False)))) = Some 1"
proof -
  let ?s = "init [] True False"
  let ?s1 = "playUrl ''a'' 1 None ?s"
  have l: "length (audios ?s) = 0" by (simp add: init_def)
  have a: "promiseIs 0 Pending ?s1" "fires (AudioEnded 0) ?s1 0" "currentAudio ?s1 = Some 0"
    using playUrl_promise[of "''a''" 1 None ?s] by (simp_all add: l)
  have b: "promiseIs 0 Resolved (step (AudioEnded 0) ?s1)"
    "currentAudio (step (AudioEnded 0) ?s1) = None"
    using a playUrl_promise[of "''a''" 1 None ?s 0 ?s1 "AudioEnded 0"] by simp_all
  have c: "promiseIs 0 Resolved (step (AudioError 0) (step (AudioEnded 0) ?s1))"
    using b playUrl_promise[of "''a''" 1 None ?s 0 "step (AudioEnded 0) ?s1" "AudioError 0" Resolved]
    by simp
  have d: "currentAudio (step (AudioError 0) (playUrl ''b'' 1 None ?s1)) = Some 1"
    using playUrl_promise[of "''a''" 1 None ?s 0 ?s "AudioError 0" Resolved "''b''" 1 None]
    by (simp add: l)
  show ?thesis using a b c d by simp
qed

text \<open>
  C4. From a state with no queued microtask, with \<open>a\<close> the index of the next element
  and \<open>c\<close> that of the next promise:

  \<^item> \<open>playWordAudio\<close> (non-empty text) creates one element, on the dictionary URL. If it
    ends, the call resolves; no further element and no call of \<open>playTextToSpeech\<close>
    follow. If it fails (error, or rejected \<open>play()\<close>), the failure is logged and
    \<open>playTextToSpeech(text, accent, speed, 1)\<close> is called exactly once: one more
    \<open>stopAudio\<close>, one more promise, one suspended continuation with these arguments;
    with voices at hand and a working synthesiser the next microtask queues exactly one
    utterance.
  \<^item> \<open>playSentenceAudio\<close> with a non-empty explicit URL creates one element on that URL.
    If it ends, the call resolves and nothing else happens. If it fails, a second
    element is created on the dictionary URL of the text, and no call of
    \<open>playTextToSpeech\<close> is made; if the second ends, the call resolves; if it fails,
    \<open>playTextToSpeech(text, accent, speed, 1)\<close> is called exactly once (for a
    non-empty text).
  \<^item> Without an explicit URL \<open>playSentenceAudio\<close> starts at the dictionary URL.
  \<^item> A promise that has settled queues nothing when further events of its element
    arrive: no step runs twice.
\<close>

theorem fallback_chain:
  assumes "microtasks s = []"
  shows
   "(t \<noteq> [] \<longrightarrow>
       obs (playWordAudio t ac sp s) =
         (map src (audios s) @ [dictUrl t ac], calls s @ [Pending], Suc (stopSignals s), console s) \<and>
       noTts s (playWordAudio t ac sp s) \<and>
       obs (after (AudioEnded (length (audios s))) (playWordAudio t ac sp s)) =
         (map src (audios s) @ [dictUrl t ac], calls s @ [Resolved], Suc (stopSignals s), console s) \<and>
       noTts s (after (AudioEnded (length (audios s))) (playWordAudio t ac sp s)) \<and>
       (e = AudioError (length (audios s)) \<or> e = PlayRejected (length (audios s)) \<longrightarrow>
          obs (after e (playWordAudio t ac sp s)) =
            (map src (audios s) @ [dictUrl t ac], calls s @ [Resolved, Pending],
             Suc (Suc (stopSignals s)),
             console s @ [Warn (''Online audio failed for '' @ t @ '', falling back to TTS'')]) \<and>
          synthQueue (after e (playWordAudio t ac sp s)) = [] \<and>
          ttsScheduled (Suc (length (calls s))) t ac sp 1 s (after e (playWordAudio t ac sp s)) \<and>
          (voicesNow s \<noteq> [] \<and> \<not> synthFails s \<longrightarrow>
             synthQueue (step Microtask (after e (playWordAudio t ac sp s))) =
               [mkUtterance t ac sp (targetVoice (voicesNow s) ac)]))) \<and>
    (u \<noteq> [] \<longrightarrow>
       obs (playSentenceAudio t (Some u) ac sp s) =
         (map src (audios s) @ [u], calls s @ [Pending], Suc (stopSignals s), console s) \<and>
       noTts s (playSentenceAudio t (Some u) ac sp s) \<and>
       obs (after (AudioEnded (length (audios s))) (playSentenceAudio t (Some u) ac sp s)) =
         (map src (audios s) @ [u], calls s @ [Resolved], Suc (stopSignals s), console s) \<and>
       noTts s (after (AudioEnded (length (audios s))) (playSentenceAudio t (Some u) ac sp s)) \<and>
       (e = AudioError (length (audios s)) \<or> e = PlayRejected (length (audios s)) \<longrightarrow>
          obs (after e (playSentenceAudio t (Some u) ac sp s)) =
            (map src (audios s) @ [u, dictUrl t ac], calls s @ [Pending],
             Suc (Suc (stopSignals s)), console s @ [Warn ''Explicit URL failed'']) \<and>
          noTts s (after e (playSentenceAudio t (Some u) ac sp s)) \<and>
          obs (after (AudioEnded (Suc (length (audios s))))
                 (after e (playSentenceAudio t (Some u) ac sp s))) =
            (map src (audios s) @ [u, dictUrl t ac], calls s @ [Resolved],
             Suc (Suc (stopSignals s)), console s @ [Warn ''Explicit URL failed'']) \<and>
          noTts s (after (AudioEnded (Suc (length (audios s))))
                 (after e (playSentenceAudio t (Some u) ac sp s))) \<and>
          (t \<noteq> [] \<and>
           (e' = AudioError (Suc (length (audios s))) \<or> e' = PlayRejected (Suc (length (audios s)))) \<longrightarrow>
             obs (after e' (after e (playSentenceAudio t (Some u) ac sp s))) =
               (map src (audios s) @ [u, dictUrl t ac], calls s @ [Resolved, Pending],
                Suc (Suc (Suc (stopSignals s))), console s @ [Warn ''Explicit URL failed'']) \<and>
             synthQueue (after e' (after e (playSentenceAudio t (Some u) ac sp s))) = [] \<and>
             ttsScheduled (Suc (length (calls s))) t ac sp 1 s
               (after e' (after e (playSentenceAudio t (Some u) ac sp s)))))) \<and>
    (obs (playSentenceAudio t None ac sp s) =
       (map src (audios s) @ [dictUrl t ac], calls s @ [Pending], Suc (stopSignals s), console s) \<and>
     noTts s (playSentenceAudio t None ac sp s) \<and>
     obs (after (AudioEnded (length (audios s))) (playSentenceAudio t None ac sp s)) =
       (map src (audios s) @ [dictUrl t ac], calls s @ [Resolved], Suc (stopSignals s), console s) \<and>
     noTts s (after (AudioEnded (length (audios s))) (playSentenceAudio t None ac sp s)) \<and>
     (t \<noteq> [] \<and> (e = AudioError (length (audios s)) \<or> e = PlayRejected (length (audios s))) \<longrightarrow>
        obs (after e (playSentenceAudio t None ac sp s)) =
          (map src (audios s) @ [dictUrl t ac], calls s @ [Resolved, Pending],
           Suc (Suc (stopSignals s)), console s) \<and>
        synthQueue (after e (playSentenceAudio t None ac sp s)) = [] \<and>
        ttsScheduled (Suc (length (calls s))) t ac sp 1 s (after e (playSentenceAudio t None ac sp s)))) \<and>
    (promiseIs x p v \<and> p \<noteq> Pending \<and>
     (e = AudioEnded x \<or> e = AudioError x \<or> e = PlayRejected x) \<longrightarrow>
       microtasks (step e v) = microtasks v)"
proof -
  let ?a = "length (audios s)"
  let ?c = "length (calls s)"
  note m = assms
  have cs: "(calls s @ [Pending])[?c := Resolved] = calls s @ [Resolved]" by simp
  have word: "obs (playWordAudio t ac sp s) =
         (map src (audios s) @ [dictUrl t ac], calls s @ [Pending], Suc (stopSignals s), console s) \<and>
       noTts s (playWordAudio t ac sp s) \<and>
       obs (after (AudioEnded ?a) (playWordAudio t ac sp s)) =
         (map src (audios s) @ [dictUrl t ac], calls s @ [Resolved], Suc (stopSignals s), console s) \<and>
       noTts s (after (AudioEnded ?a) (playWordAudio t ac sp s)) \<and>
       (e = AudioError ?a \<or> e = PlayRejected ?a \<longrightarrow>
          obs (after e (playWordAudio t ac sp s)) =
            (map src (audios s) @ [dictUrl t ac], calls s @ [Resolved, Pending],
             Suc (Suc (stopSignals s)),
             console s @ [Warn (''Online audio failed for '' @ t @ '', falling back to TTS'')]) \<and>
          synthQueue (after e (playWordAudio t ac sp s)) = [] \<and>
          ttsScheduled (Suc ?c) t ac sp 1 s (after e (playWordAudio t ac sp s)) \<and>
          (voicesNow s \<noteq> [] \<and> \<not> synthFails s \<longrightarrow>
             synthQueue (step Microtask (after e (playWordAudio t ac sp s))) =
               [mkUtterance t ac sp (targetVoice (voicesNow s) ac)]))"
    if t: "t \<noteq> []"
  proof -
    let ?s1 = "playWordAudio t ac sp s"
    let ?k = "WordAwait ?c t ac sp"
    from start_await[OF m, of "dictUrl t ac" sp ?k]
    have o: "obs ?s1 = (map src (audios s) @ [dictUrl t ac], calls s @ [Pending], Suc (stopSignals s), console s)"
      and n: "noTts s ?s1" and w: "awaitingAt s ?s1 ?a ?k"
      by (simp_all only: playWordAudio_start[OF t])
    from o have f: "map src (audios ?s1) = map src (audios s) @ [dictUrl t ac]"
      "calls ?s1 = calls s @ [Pending]" "stopSignals ?s1 = Suc (stopSignals s)" "console ?s1 = console s"
      by (simp_all add: obs_def)
    have c: "?c < length (calls ?s1)" "calls ?s1 ! ?c = Pending" by (simp_all add: f)
    from after_success[OF w c, of t ac sp]
    have ok: "obs (after (AudioEnded ?a) ?s1) =
         (map src (audios s) @ [dictUrl t ac], calls s @ [Resolved], Suc (stopSignals s), console s)"
      "noTts s (after (AudioEnded ?a) ?s1)"
      by (simp_all add: f)
    have bad: "obs (after e ?s1) =
            (map src (audios s) @ [dictUrl t ac], calls s @ [Resolved, Pending],
             Suc (Suc (stopSignals s)),
             console s @ [Warn (''Online audio failed for '' @ t @ '', falling back to TTS'')]) \<and>
          synthQueue (after e ?s1) = [] \<and>
          ttsScheduled (Suc ?c) t ac sp 1 s (after e ?s1) \<and>
          (voicesNow s \<noteq> [] \<and> \<not> synthFails s \<longrightarrow>
             synthQueue (step Microtask (after e ?s1)) =
               [mkUtterance t ac sp (targetVoice (voicesNow s) ac)])"
      if e: "e = AudioError ?a \<or> e = PlayRejected ?a"
    proof -
      from after_tts[OF w c e t, of ac sp
          "[Warn (''Online audio failed for '' @ t @ '', falling back to TTS'')]"]
      have r: "obs (after e ?s1) =
            (map src (audios s) @ [dictUrl t ac], calls s @ [Resolved, Pending],
             Suc (Suc (stopSignals s)),
             console s @ [Warn (''Online audio failed for '' @ t @ '', falling back to TTS'')])"
        "synthQueue (after e ?s1) = []" "synthFails (after e ?s1) = synthFails s"
        "ttsScheduled (Suc ?c) t ac sp 1 s (after e ?s1)"
        by (simp_all add: f)
      have "synthQueue (step Microtask (after e ?s1)) =
               [mkUtterance t ac sp (targetVoice (voicesNow s) ac)]"
        if "voicesNow s \<noteq> []" and "\<not> synthFails s"
        by (rule tts_runs[OF r(4) m that(1) _ r(2)]) (simp add: r(3) that(2))
      with r show ?thesis by blast
    qed
    show ?thesis using o n ok bad by blast
  qed
  have explicit: "obs (playSentenceAudio t (Some u) ac sp s) =
         (map src (audios s) @ [u], calls s @ [Pending], Suc (stopSignals s), console s) \<and>
       noTts s (playSentenceAudio t (Some u) ac sp s) \<and>
       obs (after (AudioEnded ?a) (playSentenceAudio t (Some u) ac sp s)) =
         (map src (audios s) @ [u], calls s @ [Resolved], Suc (stopSignals s), console s) \<and>
       noTts s (after (AudioEnded ?a) (playSentenceAudio t (Some u) ac sp s)) \<and>
       (e = AudioError ?a \<or> e = PlayRejected ?a \<longrightarrow>
          obs (after e (playSentenceAudio t (Some u) ac sp s)) =
            (map src (audios s) @ [u, dictUrl t ac], calls s @ [Pending],
             Suc (Suc (stopSignals s)), console s @ [Warn ''Explicit URL failed'']) \<and>
          noTts s (after e (playSentenceAudio t (Some u) ac sp s)) \<and>
          obs (after (AudioEnded (Suc ?a)) (after e (playSentenceAudio t (Some u) ac sp s))) =
            (map src (audios s) @ [u, dictUrl t ac], calls s @ [Resolved],
             Suc (Suc (stopSignals s)), console s @ [Warn ''Explicit URL failed'']) \<and>
          noTts s (after (AudioEnded (Suc ?a)) (after e (playSentenceAudio t (Some u) ac sp s))) \<and>
          (t \<noteq> [] \<and> (e' = AudioError (Suc ?a) \<or> e' = PlayRejected (Suc ?a)) \<longrightarrow>
             obs (after e' (after e (playSentenceAudio t (Some u) ac sp s))) =
               (map src (audios s) @ [u, dictUrl t ac], calls s @ [Resolved, Pending],
                Suc (Suc (Suc (stopSignals s))), console s @ [Warn ''Explicit URL failed'']) \<and>
             synthQueue (after e' (after e (playSentenceAudio t (Some u) ac sp s))) = [] \<and>
             ttsScheduled (Suc ?c) t ac sp 1 s
               (after e' (after e (playSentenceAudio t (Some u) ac sp s)))))"
    if u: "u \<noteq> []"
  proof -
    let ?s1 = "playSentenceAudio t (Some u) ac sp s"
    let ?k = "ExplicitAwait ?c t ac sp"
    from start_await[OF m, of u sp ?k]
    have o: "obs ?s1 = (map src (audios s) @ [u], calls s @ [Pending], Suc (stopSignals s), console s)"
      and n: "noTts s ?s1" and w: "awaitingAt s ?s1 ?a ?k"
      by (simp_all only: playSentenceAudio_explicit[OF u])
    from o have f: "map src (audios ?s1) = map src (audios s) @ [u]"
      "calls ?s1 = calls s @ [Pending]" "stopSignals ?s1 = Suc (stopSignals s)" "console ?s1 = console s"
      by (simp_all add: obs_def)
    have c: "?c < length (calls ?s1)" "calls ?s1 ! ?c = Pending" by (simp_all add: f)
    from after_success[OF w c, of t ac sp]
    have ok: "obs (after (AudioEnded ?a) ?s1) =
         (map src (audios s) @ [u], calls s @ [Resolved], Suc (stopSignals s), console s)"
      "noTts s (after (AudioEnded ?a) ?s1)"
      by (simp_all add: f)
    have bad: "obs (after e ?s1) =
            (map src (audios s) @ [u, dictUrl t ac], calls s @ [Pending],
             Suc (Suc (stopSignals s)), console s @ [Warn ''Explicit URL failed'']) \<and>
          noTts s (after e ?s1) \<and>
          obs (after (AudioEnded (Suc ?a)) (after e ?s1)) =
            (map src (audios s) @ [u, dictUrl t ac], calls s @ [Resolved],
             Suc (Suc (stopSignals s)), console s @ [Warn ''Explicit URL failed'']) \<and>
          noTts s (after (AudioEnded (Suc ?a)) (after e ?s1)) \<and>
          (t \<noteq> [] \<and> (e' = AudioError (Suc ?a) \<or> e' = PlayRejected (Suc ?a)) \<longrightarrow>
             obs (after e' (after e ?s1)) =
               (map src (audios s) @ [u, dictUrl t ac], calls s @ [Resolved, Pending],
                Suc (Suc (Suc (stopSignals s))), console s @ [Warn ''Explicit URL failed'']) \<and>
             synthQueue (after e' (after e ?s1)) = [] \<and>
             ttsScheduled (Suc ?c) t ac sp 1 s (after e' (after e ?s1)))"
      if e: "e = AudioError ?a \<or> e = PlayRejected ?a"
    proof -
      let ?s2 = "after e ?s1"
      from after_explicit[OF w e]
      have o2: "obs ?s2 = (map src (audios s) @ [u, dictUrl t ac], calls s @ [Pending],
             Suc (Suc (stopSignals s)), console s @ [Warn ''Explicit URL failed''])"
        and n2: "noTts s ?s2" and w2: "awaitingAt s ?s2 (Suc ?a) (GenericAwait ?c t ac sp)"
        by (simp_all add: f)
      from o2 have f2: "map src (audios ?s2) = map src (audios s) @ [u, dictUrl t ac]"
        "calls ?s2 = calls s @ [Pending]" "stopSignals ?s2 = Suc (Suc (stopSignals s))"
        "console ?s2 = console s @ [Warn ''Explicit URL failed'']"
        by (simp_all add: obs_def)
      have c2: "?c < length (calls ?s2)" "calls ?s2 ! ?c = Pending" by (simp_all add: f2)
      from after_success[OF w2 c2, of t ac sp]
      have ok2: "obs (after (AudioEnded (Suc ?a)) ?s2) =
            (map src (audios s) @ [u, dictUrl t ac], calls s @ [Resolved],
             Suc (Suc (stopSignals s)), console s @ [Warn ''Explicit URL failed''])"
        "noTts s (after (AudioEnded (Suc ?a)) ?s2)"
        by (simp_all add: f2)
      have bad2: "obs (after e' ?s2) =
               (map src (audios s) @ [u, dictUrl t ac], calls s @ [Resolved, Pending],
                Suc (Suc (Suc (stopSignals s))), console s @ [Warn ''Explicit URL failed'']) \<and>
             synthQueue (after e' ?s2) = [] \<and>
             ttsScheduled (Suc ?c) t ac sp 1 s (after e' ?s2)"
        if t: "t \<noteq> []" and e': "e' = AudioError (Suc ?a) \<or> e' = PlayRejected (Suc ?a)"
        using after_tts[OF w2 c2 e' t, of ac sp "[]"] by (simp add: f2)
      show ?thesis using o2 n2 ok2 bad2 by blast
    qed
    show ?thesis using o n ok bad by blast
  qed
  have generic: "obs (playSentenceAudio t None ac sp s) =
       (map src (audios s) @ [dictUrl t ac], calls s @ [Pending], Suc (stopSignals s), console s) \<and>
     noTts s (playSentenceAudio t None ac sp s) \<and>
     obs (after (AudioEnded ?a) (playSentenceAudio t None ac sp s)) =
       (map src (audios s) @ [dictUrl t ac], calls s @ [Resolved], Suc (stopSignals s), console s) \<and>
     noTts s (after (AudioEnded ?a) (playSentenceAudio t None ac sp s)) \<and>
     (t \<noteq> [] \<and> (e = AudioError ?a \<or> e = PlayRejected ?a) \<longrightarrow>
        obs (after e (playSentenceAudio t None ac sp s)) =
          (map src (audios s) @ [dictUrl t ac], calls s @ [Resolved, Pending],
           Suc (Suc (stopSignals s)), console s) \<and>
        synthQueue (after e (playSentenceAudio t None ac sp s)) = [] \<and>
        ttsScheduled (Suc ?c) t ac sp 1 s (after e (playSentenceAudio t None ac sp s)))"
  proof -
    let ?s1 = "playSentenceAudio t None ac sp s"
    let ?k = "GenericAwait ?c t ac sp"
    from start_await[OF m, of "dictUrl t ac" sp ?k]
    have o: "obs ?s1 = (map src (audios s) @ [dictUrl t ac], calls s @ [Pending], Suc (stopSignals s), console s)"
      and n: "noTts s ?s1" and w: "awaitingAt s ?s1 ?a ?k"
      by (simp_all only: playSentenceAudio_generic)
    from o have f: "map src (audios ?s1) = map src (audios s) @ [dictUrl t ac]"
      "calls ?s1 = calls s @ [Pending]" "stopSignals ?s1 = Suc (stopSignals s)" "console ?s1 = console s"
      by (simp_all add: obs_def)
    have c: "?c < length (calls ?s1)" "calls ?s1 ! ?c = Pending" by (simp_all add: f)
    from after_success[OF w c, of t ac sp]
    have ok: "obs (after (AudioEnded ?a) ?s1) =
         (map src (audios s) @ [dictUrl t ac], calls s @ [Resolved], Suc (stopSignals s), console s)"
      "noTts s (after (AudioEnded ?a) ?s1)"
      by (simp_all add: f)
    have bad: "obs (after e ?s1) =
          (map src (audios s) @ [dictUrl t ac], calls s @ [Resolved, Pending],
           Suc (Suc (stopSignals s)), console s) \<and>
        synthQueue (after e ?s1) = [] \<and>
        ttsScheduled (Suc ?c) t ac sp 1 s (after e ?s1)"
      if t: "t \<noteq> []" and e: "e = AudioError ?a \<or> e = PlayRejected ?a"
      using after_tts[OF w c e t, of ac sp "[]"] by (simp add: f)
    show ?thesis using o n ok bad by blast
  qed
  have once: "microtasks (step e v) = microtasks v"
    if "promiseIs x p v" and "p \<noteq> Pending"
      and "e = AudioEnded x \<or> e = AudioError x \<or> e = PlayRejected x"
    using that by (rule settled_once)
  show ?thesis using word explicit generic once by blast
qed

theorem fallback_chain_witness:
  "microtasks (init [\<lparr>vname = ''us'', vlang = ''en-US''\<rparr>] True False) = [] \<and>
   voicesNow (init [\<lparr>vname = ''us'', vlang = ''en-US''\<rparr>] True False) \<noteq> [] \<and>
   \<not> synthFails (init [\<lparr>vname = ''us'', vlang = ''en-US''\<rparr>] True False) \<and>
   dictUrl ''hello'' US = ''https://dict.youdao.com/dictvoice?audio=hello&type=2'' \<and>
   obs (after (AudioEnded 0)
     (playWordAudio ''hello'' US 1 (init [\<lparr>vname = ''us'', vlang = ''en-US''\<rparr>] True False))) =
     ([''https://dict.youdao.com/dictvoice?audio=hello&type=2''], [Resolved], 1, []) \<and>
   obs (after (AudioError 0)
     (playWordAudio ''hello'' US 1 (init [\<lparr>vname = ''us'', vlang = ''en-US''\<rparr>] True False))) =
     ([''https://dict.youdao.com/dictvoice?audio=hello&type=2''], [Resolved, Pending], 2,
      [Warn ''Online audio failed for hello, falling back to TTS'']) \<and>
   map urate (synthQueue (step Microtask (after (AudioError 0)
     (playWordAudio ''hello'' US 1 (init [\<lparr>vname = ''us'', vlang = ''en-US''\<rparr>] True False))))) = [1] \<and>
   obs (after (AudioError 0)
     (playSentenceAudio ''hello'' (Some ''http://x'') US 1
        (init [\<lparr>vname = ''us'', vlang = ''en-US''\<rparr>] True False))) =
     ([''http://x'', ''https://dict.youdao.com/dictvoice?audio=hello&type=2''], [Pending], 2,
      [Warn ''Explicit URL failed'']) \<and>
   obs (after (AudioError 1) (after (AudioError 0)
     (playSentenceAudio ''hello'' (Some ''http://x'') US 1
        (init [\<lparr>vname = ''us'', vlang = ''en-US''\<rparr>] True False)))) =
     ([''http://x'', ''https://dict.youdao.com/dictvoice?audio=hello&type=2''], [Resolved, Pending], 3,
      [Warn ''Explicit URL failed'']) \<and>
   promiseIs 0 Rejected (step (AudioError 0)
     (playUrl ''a'' 1 None (init [\<lparr>vname = ''us'', vlang = ''en-US''\<rparr>] True False))) \<and>
   microtasks (step (PlayRejected 0) (step (AudioError 0)
     (playUrl ''a'' 1 None (init [\<lparr>vname = ''us'', vlang = ''en-US''\<rparr>] True False)))) =
   microtasks (step (AudioError 0)
     (playUrl ''a'' 1 None (init [\<lparr>vname = ''us'', vlang = ''en-US''\<rparr>] True False)))"
proof -
  let ?s = "init [\<lparr>vname = ''us'', vlang = ''en-US''\<rparr>] True False"
  let ?p = "playUrl ''a'' 1 None ?s"
  have h: "microtasks ?s = []" "voicesNow ?s \<noteq> []" "\<not> synthFails ?s" "audios ?s = []"
    "calls ?s = []" "stopSignals ?s = 0" "console ?s = []"
    by (simp_all add: init_def voicesNow_def)
  have d: "dictUrl ''hello'' US = ''https://dict.youdao.com/dictvoice?audio=hello&type=2''"
    by (simp add: dictUrl_def encodeURIComponent_def unreserved_def)
  have r: "urate (mkUtterance ''hello'' US 1 tv) = 1" for tv
    by (cases tv) (simp_all add: mkUtterance_def safeRate_def)
  have "promiseIs 0 Pending ?p" "fires (AudioError 0) ?p 0"
    by (simp_all add: promiseIs_def fires_def playUrl_audios h nth_append)
  with promise_pending[of 0 ?p "AudioError 0"]
  have pr: "promiseIs 0 Rejected (step (AudioError 0) ?p)" by simp
  show ?thesis
    using h d pr
      fallback_chain[OF h(1), of "''hello''" US 1 "AudioError 0" "''http://x''" "AudioError 1"
        0 Rejected "step (AudioError 0) ?p"]
      fallback_chain[OF h(1), of "''hello''" US 1 "PlayRejected 0" "''http://x''" "AudioError 1"
        0 Rejected "step (AudioError 0) ?p"]
    by (simp add: r)
qed

end
